theory Spec2Isabelle
  imports Main "HOL-Library.Word"
begin

unbundle bit_operations_syntax

section \<open>Data model of lib/ukconsole\<close>

text \<open>
  Machine types of the source: \<open>__sz\<close> is an unsigned 64-bit integer, \<open>__ssz\<close> a signed
  one (a 64-bit word read with \<open>sint\<close>), \<open>__u16\<close> a 16-bit word, \<open>int\<close> a 32-bit word,
  \<open>char\<close> a byte. A \<open>struct uk_console *\<close> is an address; \<open>NULL\<close> is \<open>None\<close>.
\<close>

type_synonym sz = "64 word"
type_synonym ssz = "64 word"
type_synonym u16 = "16 word"
type_synonym cint = "32 word"
type_synonym u32 = "32 word"
type_synonym byte = "8 word"
type_synonym addr = nat

text \<open>
  The two function pointers of \<open>struct uk_console_ops\<close>. A device function is code of a
  driver: it is a transformer of the state \<open>'w\<close> of the hardware behind the devices, and it
  is taken to return. \<open>out\<close> receives the device, the memory at \<open>buf\<close> and \<open>len\<close>, and gives
  its return value. \<open>in\<close> receives the device and \<open>len\<close>, and gives its return value and
  the bytes it stores at \<open>buf[0]\<close>, \<open>buf[1]\<close>, ...
\<close>

type_synonym 'w out_fn = "addr \<Rightarrow> byte list \<Rightarrow> sz \<Rightarrow> 'w \<Rightarrow> ssz \<times> 'w"
type_synonym 'w in_fn = "addr \<Rightarrow> sz \<Rightarrow> 'w \<Rightarrow> (ssz \<times> byte list) \<times> 'w"

record 'w uk_console_ops =
  ops_out :: "'w out_fn option"
  ops_in :: "'w in_fn option"

text \<open>\<open>struct uk_console\<close>: a null \<open>ops\<close> pointer is \<open>None\<close>.\<close>

record 'w uk_console =
  con_name :: string
  con_ops :: "'w uk_console_ops option"
  con_flags :: cint
  con_id :: u16

text \<open>
  Modelled from the spec: the header \<open>uk/console/driver.h\<close> with the two flag macros is
  not among the sources. The spec describes \<open>flags\<close> as a bitset of IS_STDIN and
  IS_STDOUT; they are two distinct bits here. \<open>EINVAL\<close> of \<open>errno.h\<close> is 22.
\<close>

definition UK_CONSOLE_FLAG_STDOUT :: cint where
  "UK_CONSOLE_FLAG_STDOUT = 1"

definition UK_CONSOLE_FLAG_STDIN :: cint where
  "UK_CONSOLE_FLAG_STDIN = 2"

definition EINVAL :: ssz where
  "EINVAL = 22"

text \<open>
  A device function that is called leaves an entry in \<open>calls\<close>: for \<open>out\<close> the device,
  the buffer and the length it was given, for \<open>in\<close> the device, the length it was given
  and the value it returned. The log is not in the source; it makes "the device is
  invoked" a fact of the state.
\<close>

datatype call = OutCall addr "byte list" sz | InCall addr sz ssz

text \<open>
  The state: the memory holding the device structures, the three static variables of
  console.c, the hardware behind the devices and the log of device calls.
\<close>

record 'w kernel =
  devs :: "addr \<Rightarrow> 'w uk_console"
  uk_console_device_list :: "addr list"
  uk_console_device_count :: u16
  uk_console_set_standard_once :: cint
  hw :: 'w
  calls :: "call list"

definition boot :: "(addr \<Rightarrow> 'w uk_console) \<Rightarrow> 'w \<Rightarrow> 'w kernel" where
  "boot mem w = \<lparr>devs = mem, uk_console_device_list = [], uk_console_device_count = 0,
     uk_console_set_standard_once = 0, hw = w, calls = []\<rparr>"

text \<open>
  What a call can do other than return a value: fail a \<open>UK_ASSERT\<close>, dereference a null
  pointer, read past the end of the buffer it was given, or never return.
\<close>

datatype fault = AssertionFailed | NullDeref | OutOfBounds | NoReturn

section \<open>The operations of console.c\<close>

fun find_id :: "(addr \<Rightarrow> 'w uk_console) \<Rightarrow> u16 \<Rightarrow> addr list \<Rightarrow> addr option" where
  "find_id mem i [] = None"
| "find_id mem i (a # as) = (if con_id (mem a) = i then Some a else find_id mem i as)"

definition uk_console_get :: "u16 \<Rightarrow> 'w kernel \<Rightarrow> addr option" where
  "uk_console_get i s = find_id (devs s) i (uk_console_device_list s)"

definition uk_console_count :: "'w kernel \<Rightarrow> u16" where
  "uk_console_count s = uk_console_device_count s"

text \<open>
  \<open>uk_console_out_direct\<close>: the checks in the order of the source (\<open>||\<close> evaluates left
  to right), then the call through the function pointer.
\<close>

definition uk_console_out_direct ::
  "addr option \<Rightarrow> byte list option \<Rightarrow> sz \<Rightarrow> 'w kernel \<Rightarrow> ssz \<times> 'w kernel" where
  "uk_console_out_direct dev buf len s =
     (if len = 0 then (0, s)
      else case buf of None \<Rightarrow> (- EINVAL, s) | Some b \<Rightarrow>
        (case dev of None \<Rightarrow> (- EINVAL, s) | Some a \<Rightarrow>
          (case con_ops (devs s a) of None \<Rightarrow> (- EINVAL, s) | Some ops \<Rightarrow>
            (case ops_out ops of None \<Rightarrow> (- EINVAL, s) | Some f \<Rightarrow>
              (let (rc, w) = f a b len (hw s)
               in (rc, s\<lparr>hw := w, calls := calls s @ [OutCall a b len]\<rparr>))))))"

text \<open>
  \<open>uk_console_in_direct\<close> gives, beside the return value, the bytes the device stored
  at \<open>buf\<close> (none when no device function ran). The device is given \<open>len\<close> bytes of
  room and what it stores is cut to that.
\<close>

definition uk_console_in_direct ::
  "addr option \<Rightarrow> byte list option \<Rightarrow> sz \<Rightarrow> 'w kernel \<Rightarrow> ssz \<times> byte list \<times> 'w kernel" where
  "uk_console_in_direct dev buf len s =
     (if len = 0 then (0, [], s)
      else case buf of None \<Rightarrow> (- EINVAL, [], s) | Some b \<Rightarrow>
        (case dev of None \<Rightarrow> (- EINVAL, [], s) | Some a \<Rightarrow>
          (case con_ops (devs s a) of None \<Rightarrow> (- EINVAL, [], s) | Some ops \<Rightarrow>
            (case ops_in ops of None \<Rightarrow> (- EINVAL, [], s) | Some f \<Rightarrow>
              (let ((rc, dat), w) = f a len (hw s)
               in (rc, take (unat len) dat,
                   s\<lparr>hw := w, calls := calls s @ [InCall a len rc]\<rparr>))))))"

text \<open>Storing bytes at the start of a memory area.\<close>

definition store_bytes :: "byte list \<Rightarrow> byte list \<Rightarrow> byte list" where
  "store_bytes dat mem = dat @ drop (length dat) mem"

text \<open>
  The loop of \<open>uk_console_out\<close> over the device list. \<open>dev->ops->out\<close> is read only when
  the flag is set (\<open>&&\<close>), and reading it through a null \<open>ops\<close> is a fault. The return
  value of \<open>uk_console_out_direct\<close> is dropped.
\<close>

fun uk_console_out_loop ::
  "addr list \<Rightarrow> byte list option \<Rightarrow> sz \<Rightarrow> 'w kernel \<Rightarrow> fault + 'w kernel" where
  "uk_console_out_loop [] buf len s = Inr s"
| "uk_console_out_loop (a # as) buf len s =
     (if con_flags (devs s a) AND UK_CONSOLE_FLAG_STDOUT \<noteq> 0 then
        (case con_ops (devs s a) of None \<Rightarrow> Inl NullDeref | Some ops \<Rightarrow>
          (if ops_out ops \<noteq> None
           then uk_console_out_loop as buf len (snd (uk_console_out_direct (Some a) buf len s))
           else uk_console_out_loop as buf len s))
      else uk_console_out_loop as buf len s)"

definition uk_console_out :: "byte list option \<Rightarrow> sz \<Rightarrow> 'w kernel \<Rightarrow> fault + (ssz \<times> 'w kernel)" where
  "uk_console_out buf len s =
     (if len = 0 then Inr (0, s)
      else if buf = None then Inr (- EINVAL, s)
      else (case uk_console_out_loop (uk_console_device_list s) buf len s of
              Inl e \<Rightarrow> Inl e
            | Inr s' \<Rightarrow> Inr (len, s')))"

text \<open>
  The loop of \<open>uk_console_in\<close>. The pointer \<open>buf\<close> moves: \<open>done\<close> is the memory before it,
  \<open>buf\<close> the memory from it on, so \<open>buf += rc\<close> moves \<open>rc\<close> bytes from \<open>buf\<close> to \<open>done\<close>.
  \<open>rc >= 0\<close> is on the signed reading of \<open>rc\<close>, \<open>(__sz)rc <= leftover\<close> on the unsigned one.
  The result is the memory of the whole buffer, \<open>leftover\<close> and the state.
\<close>

fun uk_console_in_loop ::
  "addr list \<Rightarrow> byte list \<Rightarrow> byte list \<Rightarrow> sz \<Rightarrow> 'w kernel
     \<Rightarrow> fault + (byte list \<times> sz \<times> 'w kernel)" where
  "uk_console_in_loop [] done buf leftover s = Inr (done @ buf, leftover, s)"
| "uk_console_in_loop (a # as) done buf leftover s =
     (if con_flags (devs s a) AND UK_CONSOLE_FLAG_STDIN \<noteq> 0 then
        (case con_ops (devs s a) of None \<Rightarrow> Inl NullDeref | Some ops \<Rightarrow>
          (if ops_in ops \<noteq> None then
             (let (rc, dat, s1) = uk_console_in_direct (Some a) (Some buf) leftover s;
                  buf1 = store_bytes dat buf;
                  ok = (0 \<le> sint rc \<and> rc \<le> leftover);
                  leftover' = (if ok then leftover - rc else leftover);
                  done' = (if ok then done @ take (unat rc) buf1 else done);
                  buf' = (if ok then drop (unat rc) buf1 else buf1)
              in if leftover' = 0
                 then Inr (done' @ buf', leftover', s1)
                 else uk_console_in_loop as done' buf' leftover' s1)
           else uk_console_in_loop as done buf leftover s))
      else uk_console_in_loop as done buf leftover s)"

definition uk_console_in ::
  "byte list option \<Rightarrow> sz \<Rightarrow> 'w kernel \<Rightarrow> fault + (ssz \<times> byte list option \<times> 'w kernel)" where
  "uk_console_in buf len s =
     (if len = 0 then Inr (0, buf, s)
      else case buf of None \<Rightarrow> Inr (- EINVAL, buf, s) | Some b \<Rightarrow>
        (case uk_console_in_loop (uk_console_device_list s) [] b len s of
           Inl e \<Rightarrow> Inl e
         | Inr (mem, leftover, s') \<Rightarrow> Inr (len - leftover, Some mem, s')))"

text \<open>
  \<open>uk_console_register\<close>, in a build with assertions: a failed \<open>UK_ASSERT\<close> stops the
  kernel. The diagnostic line of \<open>uk_pr_info\<close> changes no state and is left out.
\<close>

definition uk_console_register :: "addr option \<Rightarrow> 'w kernel \<Rightarrow> fault + 'w kernel" where
  "uk_console_register dev s =
     (case dev of None \<Rightarrow> Inl AssertionFailed | Some a \<Rightarrow>
        if con_ops (devs s a) = None then Inl AssertionFailed
        else if a \<in> set (uk_console_device_list s) then Inl AssertionFailed
        else
          (let d = devs s a;
               once1 = (if con_flags d \<noteq> 0 then 1 else uk_console_set_standard_once s);
               promote = (once1 = 0 \<and>
                  con_flags d AND (UK_CONSOLE_FLAG_STDOUT OR UK_CONSOLE_FLAG_STDIN) = 0);
               once2 = (if promote then 1 else once1);
               fl = (if promote
                     then con_flags d OR (UK_CONSOLE_FLAG_STDOUT OR UK_CONSOLE_FLAG_STDIN)
                     else con_flags d);
               d' = d\<lparr>con_flags := fl, con_id := uk_console_device_count s\<rparr>
           in Inr (s\<lparr>devs := (devs s)(a := d'),
                      uk_console_device_list := uk_console_device_list s @ [a],
                      uk_console_device_count := uk_console_device_count s + 1,
                      uk_console_set_standard_once := once2\<rparr>)))"

text \<open>A sequence of registrations, stopping at the first failed assertion.\<close>

fun register_all :: "addr list \<Rightarrow> 'w kernel \<Rightarrow> fault + 'w kernel" where
  "register_all [] s = Inr s"
| "register_all (a # as) s =
     (case uk_console_register (Some a) s of Inl e \<Rightarrow> Inl e | Inr s' \<Rightarrow> register_all as s')"

section \<open>The NS16550 driver\<close>

text \<open>
  \<open>ns16550_io_read\<close> and \<open>ns16550_io_write\<close> are declared in \<open>ns16550.h\<close> and defined per
  platform; neither is among the sources. The register access of the platform is the
  parameter \<open>io\<close>: what reading a register at an offset gives and does to the UART
  \<open>'h\<close>, and what writing a value at an offset does to it. Of \<open>struct ns16550_device\<close>
  the model keeps the UART behind the registers, and it adds \<open>written\<close>, the list of all
  register writes so far (offset and value, oldest first), which is not in the source.
\<close>

record 'h ns16550_io =
  io_read :: "'h \<Rightarrow> u32 \<Rightarrow> u32 \<times> 'h"
  io_write :: "'h \<Rightarrow> u32 \<Rightarrow> u32 \<Rightarrow> 'h"

record 'h ns16550_device =
  uart :: 'h
  written :: "(u32 \<times> u32) list"

text \<open>The register offsets and bits that \<open>_putc\<close> uses, as ns16550.c defines them.\<close>

definition NS16550_THR_OFFSET :: u32 where "NS16550_THR_OFFSET = 0x00"
definition NS16550_LCR_OFFSET :: u32 where "NS16550_LCR_OFFSET = 0x03"
definition NS16550_LSR_OFFSET :: u32 where "NS16550_LSR_OFFSET = 0x05"
definition NS16550_LCR_DLAB :: u32 where "NS16550_LCR_DLAB = 0x80"
definition NS16550_LSR_TX_EMPTY :: u32 where "NS16550_LSR_TX_EMPTY = 0x40"

definition ns16550_io_read ::
  "'h ns16550_io \<Rightarrow> 'h ns16550_device \<Rightarrow> u32 \<Rightarrow> u32 \<times> 'h ns16550_device" where
  "ns16550_io_read io dev off =
     (case io_read io (uart dev) off of (v, h) \<Rightarrow> (v, dev\<lparr>uart := h\<rparr>))"

definition ns16550_io_write ::
  "'h ns16550_io \<Rightarrow> 'h ns16550_device \<Rightarrow> u32 \<Rightarrow> u32 \<Rightarrow> 'h ns16550_device" where
  "ns16550_io_write io dev off v =
     dev\<lparr>uart := io_write io (uart dev) off v, written := written dev @ [(off, v)]\<rparr>"

text \<open>
  \<open>_putc\<close> (here \<open>putc_raw\<close>, a name cannot start with an underscore). Its first loop
  polls the line status register until the TX-empty bit is set, and runs forever when
  the bit never comes: \<open>wait_tx_empty\<close> is \<open>None\<close> then. The value written to THR is
  \<open>a & 0xff\<close>, the byte zero-extended, whether \<open>char\<close> is signed or not.
\<close>

partial_function (option) wait_tx_empty ::
  "'h ns16550_io \<Rightarrow> 'h ns16550_device \<Rightarrow> 'h ns16550_device option" where
  "wait_tx_empty io dev =
     (case ns16550_io_read io dev NS16550_LSR_OFFSET of (v, dev') \<Rightarrow>
        if v AND NS16550_LSR_TX_EMPTY = 0 then wait_tx_empty io dev' else Some dev')"

definition putc_raw :: "'h ns16550_io \<Rightarrow> 'h ns16550_device \<Rightarrow> byte \<Rightarrow> 'h ns16550_device option" where
  "putc_raw io dev a =
     (case wait_tx_empty io dev of None \<Rightarrow> None | Some d1 \<Rightarrow>
        (case ns16550_io_read io d1 NS16550_LCR_OFFSET of (lcr, d2) \<Rightarrow>
           Some (ns16550_io_write io
                  (ns16550_io_write io d2 NS16550_LCR_OFFSET (lcr AND NOT NS16550_LCR_DLAB))
                  NS16550_THR_OFFSET (ucast a AND 0xff))))"

definition ns16550_putc :: "'h ns16550_io \<Rightarrow> 'h ns16550_device \<Rightarrow> byte \<Rightarrow> 'h ns16550_device option" where
  "ns16550_putc io dev a =
     (if a = 10 then (case putc_raw io dev 13 of None \<Rightarrow> None | Some d \<Rightarrow> putc_raw io d a)
      else putc_raw io dev a)"

text \<open>
  \<open>ns16550_out\<close>: \<open>UK_ASSERT(buf)\<close>, then \<open>while (l--)\<close> over the bytes at \<open>buf\<close>. The device
  is given directly (\<open>con\<close> is not null). Reading \<open>*buf++\<close> past the end of the buffer
  is \<open>OutOfBounds\<close>; a \<open>_putc\<close> that never returns is \<open>NoReturn\<close>.
\<close>

fun ns16550_out_loop ::
  "'h ns16550_io \<Rightarrow> 'h ns16550_device \<Rightarrow> byte list \<Rightarrow> sz \<Rightarrow> fault + 'h ns16550_device" where
  "ns16550_out_loop io dev [] l = (if l = 0 then Inr dev else Inl OutOfBounds)"
| "ns16550_out_loop io dev (c # cs) l =
     (if l = 0 then Inr dev
      else case ns16550_putc io dev c of None \<Rightarrow> Inl NoReturn
           | Some d \<Rightarrow> ns16550_out_loop io d cs (l - 1))"

definition ns16550_out ::
  "'h ns16550_io \<Rightarrow> 'h ns16550_device \<Rightarrow> byte list option \<Rightarrow> sz
     \<Rightarrow> fault + (ssz \<times> 'h ns16550_device)" where
  "ns16550_out io dev buf len =
     (case buf of None \<Rightarrow> Inl AssertionFailed | Some b \<Rightarrow>
        (case ns16550_out_loop io dev b len of Inl e \<Rightarrow> Inl e | Inr d \<Rightarrow> Inr (len, d)))"

section \<open>Example devices\<close>

text \<open>
  Modelled from the spec: the macro \<open>UK_CONSOLE\<close> of the driver header is not among the
  sources. \<open>ns16550_register_console\<close> uses it to build a device structure from a name,
  the ops and the flags; the spec has the id assigned at registration.
\<close>

definition UK_CONSOLE :: "string \<Rightarrow> 'w uk_console_ops option \<Rightarrow> cint \<Rightarrow> 'w uk_console" where
  "UK_CONSOLE nm ops fl = \<lparr>con_name = nm, con_ops = ops, con_flags = fl, con_id = 0\<rparr>"

text \<open>
  Concrete devices for evaluating the operations. The hardware is one byte queue per
  device: what an output device has emitted, or what an input device still holds.
\<close>

type_synonym wires = "addr \<Rightarrow> byte list"

definition sink_out :: "wires out_fn" where
  "sink_out a b len w = (len, w(a := w a @ take (unat len) b))"

definition short_out :: "wires out_fn" where
  "short_out a b len w = (1, w(a := w a @ take 1 b))"

definition fifo_in :: "wires in_fn" where
  "fifo_in a len w =
     ((word_of_nat (min (unat len) (length (w a))), take (unat len) (w a)),
      w(a := drop (unat len) (w a)))"

definition failing_in :: "wires in_fn" where
  "failing_in a len w = ((- 5, []), w)"

definition greedy_in :: "wires in_fn" where
  "greedy_in a len w = ((0x7FFFFFFFFFFFFFFF, []), w)"

definition quiet :: wires where
  "quiet = (\<lambda>a. [])"

definition spare_mem :: "addr \<Rightarrow> wires uk_console" where
  "spare_mem = (\<lambda>a. UK_CONSOLE ''spare'' (Some \<lparr>ops_out = Some sink_out, ops_in = Some fifo_in\<rparr>) 0)"

definition registered :: "addr list \<Rightarrow> (addr \<Rightarrow> 'w uk_console) \<Rightarrow> 'w \<Rightarrow> 'w kernel" where
  "registered as mem w = (case register_all as (boot mem w) of Inr s \<Rightarrow> s | Inl e \<Rightarrow> boot mem w)"

text \<open>Two output devices: A at address 1 takes all it is given, B at address 2 one byte.\<close>

definition sinks_mem :: "addr \<Rightarrow> wires uk_console" where
  "sinks_mem = spare_mem
     (1 := UK_CONSOLE ''A'' (Some \<lparr>ops_out = Some sink_out, ops_in = None\<rparr>) UK_CONSOLE_FLAG_STDOUT,
      2 := UK_CONSOLE ''B'' (Some \<lparr>ops_out = Some short_out, ops_in = None\<rparr>) UK_CONSOLE_FLAG_STDOUT)"

text \<open>
  Two input devices: A at address 1 and B at address 2 hand out what their queue holds.
  In \<open>pending\<close> A holds "ab" and B holds "cdefg".
\<close>

definition sources_mem :: "addr \<Rightarrow> wires uk_console" where
  "sources_mem = spare_mem
     (1 := UK_CONSOLE ''A'' (Some \<lparr>ops_out = None, ops_in = Some fifo_in\<rparr>) UK_CONSOLE_FLAG_STDIN,
      2 := UK_CONSOLE ''B'' (Some \<lparr>ops_out = None, ops_in = Some fifo_in\<rparr>) UK_CONSOLE_FLAG_STDIN)"

definition pending :: wires where
  "pending = quiet(1 := [97, 98], 2 := [99, 100, 101, 102, 103])"

text \<open>
  Input devices that misbehave. In \<open>faulty_mem\<close> A (address 1) fails with \<open>-5\<close> and B
  (address 2) hands out its queue; in \<open>failing_mem\<close> both fail; in \<open>greedy_mem\<close> both
  report \<open>SSIZE_MAX\<close> bytes and store nothing. In \<open>xy_pending\<close> B holds "xy".
\<close>

definition faulty_mem :: "addr \<Rightarrow> wires uk_console" where
  "faulty_mem = spare_mem
     (1 := UK_CONSOLE ''A'' (Some \<lparr>ops_out = None, ops_in = Some failing_in\<rparr>) UK_CONSOLE_FLAG_STDIN,
      2 := UK_CONSOLE ''B'' (Some \<lparr>ops_out = None, ops_in = Some fifo_in\<rparr>) UK_CONSOLE_FLAG_STDIN)"

definition greedy_mem :: "addr \<Rightarrow> wires uk_console" where
  "greedy_mem = spare_mem
     (1 := UK_CONSOLE ''A'' (Some \<lparr>ops_out = None, ops_in = Some greedy_in\<rparr>) UK_CONSOLE_FLAG_STDIN,
      2 := UK_CONSOLE ''B'' (Some \<lparr>ops_out = None, ops_in = Some greedy_in\<rparr>) UK_CONSOLE_FLAG_STDIN)"

definition failing_mem :: "addr \<Rightarrow> wires uk_console" where
  "failing_mem = spare_mem
     (1 := UK_CONSOLE ''A'' (Some \<lparr>ops_out = None, ops_in = Some failing_in\<rparr>) UK_CONSOLE_FLAG_STDIN,
      2 := UK_CONSOLE ''B'' (Some \<lparr>ops_out = None, ops_in = Some failing_in\<rparr>) UK_CONSOLE_FLAG_STDIN)"

definition xy_pending :: wires where
  "xy_pending = quiet(2 := [120, 121])"

text \<open>
  A UART for evaluating the driver: its state is the number of polls of the line status
  register until the transmitter is empty, and a write to THR keeps it busy for two
  polls.
\<close>

definition slow_io :: "nat ns16550_io" where
  "slow_io = \<lparr>io_read = (\<lambda>h off. if off = NS16550_LSR_OFFSET
                                   then (if h = 0 then 0x60 else 0x00, h - 1) else (0, h)),
              io_write = (\<lambda>h off v. if off = NS16550_THR_OFFSET then 2 else h)\<rparr>"

section \<open>Predicates and reference functions for the properties\<close>

text \<open>
  Every registered device has an \<open>ops\<close> structure: what \<open>UK_ASSERT(dev->ops)\<close> of
  \<open>uk_console_register\<close> establishes, and what the loops of \<open>uk_console_out\<close> and
  \<open>uk_console_in\<close> rely on when they read \<open>dev->ops->out\<close> and \<open>dev->ops->in\<close>.
\<close>

definition registry_ok :: "'w kernel \<Rightarrow> bool" where
  "registry_ok s = list_all (\<lambda>a. con_ops (devs s a) \<noteq> None) (uk_console_device_list s)"

text \<open>The device reference is null, its \<open>ops\<close> is null, or the capability is null.\<close>

definition lacks_out :: "'w kernel \<Rightarrow> addr option \<Rightarrow> bool" where
  "lacks_out s dev =
     (case dev of None \<Rightarrow> True | Some a \<Rightarrow>
        (case con_ops (devs s a) of None \<Rightarrow> True | Some ops \<Rightarrow> ops_out ops = None))"

definition lacks_in :: "'w kernel \<Rightarrow> addr option \<Rightarrow> bool" where
  "lacks_in s dev =
     (case dev of None \<Rightarrow> True | Some a \<Rightarrow>
        (case con_ops (devs s a) of None \<Rightarrow> True | Some ops \<Rightarrow> ops_in ops = None))"

text \<open>
  Broadcast as the spec words it: the registered devices flagged IS_STDOUT that have an
  \<open>out\<close> capability, in registration order, and the hardware after each of them in turn
  was handed the buffer and the length, its return value dropped.
\<close>

definition has_out :: "(addr \<Rightarrow> 'w uk_console) \<Rightarrow> addr \<Rightarrow> bool" where
  "has_out mem a = (case con_ops (mem a) of None \<Rightarrow> False | Some ops \<Rightarrow> ops_out ops \<noteq> None)"

definition stdout_devices :: "'w kernel \<Rightarrow> addr list" where
  "stdout_devices s =
     filter (\<lambda>a. con_flags (devs s a) AND UK_CONSOLE_FLAG_STDOUT \<noteq> 0 \<and> has_out (devs s) a)
       (uk_console_device_list s)"

fun deliver :: "(addr \<Rightarrow> 'w uk_console) \<Rightarrow> addr list \<Rightarrow> byte list \<Rightarrow> sz \<Rightarrow> 'w \<Rightarrow> 'w" where
  "deliver mem [] b len w = w"
| "deliver mem (a # as) b len w =
     (case con_ops (mem a) of None \<Rightarrow> deliver mem as b len w | Some ops \<Rightarrow>
        (case ops_out ops of None \<Rightarrow> deliver mem as b len w
         | Some f \<Rightarrow> deliver mem as b len (snd (f a b len w))))"

text \<open>
  The flags a device has after its registration: both standard flags when it came with
  none and the latch \<open>uk_console_set_standard_once\<close> was not set, its own otherwise.
\<close>

definition new_flags :: "'w kernel \<Rightarrow> addr \<Rightarrow> cint" where
  "new_flags s a = (if con_flags (devs s a) = 0 \<and> uk_console_set_standard_once s = 0
      then UK_CONSOLE_FLAG_STDOUT OR UK_CONSOLE_FLAG_STDIN else con_flags (devs s a))"

text \<open>
  Aggregate input as the spec words it. \<open>stdin_devices\<close> are the registered devices
  flagged IS_STDIN that have an \<open>in\<close> capability, in registration order.
  \<open>in_behaves\<close> says that a device's \<open>in\<close>, asked for up to \<open>len\<close> bytes, returns its
  available bytes: a count that is not negative and not above what was asked, and
  stores that many bytes. \<open>drain\<close> visits the devices in order while room is left, asks
  each for the room that is left, and gives the bytes gathered, the device calls made
  and the hardware afterwards.
\<close>

definition has_in :: "(addr \<Rightarrow> 'w uk_console) \<Rightarrow> addr \<Rightarrow> bool" where
  "has_in mem a = (case con_ops (mem a) of None \<Rightarrow> False | Some ops \<Rightarrow> ops_in ops \<noteq> None)"

definition stdin_devices :: "'w kernel \<Rightarrow> addr list" where
  "stdin_devices s =
     filter (\<lambda>a. con_flags (devs s a) AND UK_CONSOLE_FLAG_STDIN \<noteq> 0 \<and> has_in (devs s) a)
       (uk_console_device_list s)"

definition in_behaves :: "(addr \<Rightarrow> 'w uk_console) \<Rightarrow> sz \<Rightarrow> addr \<Rightarrow> bool" where
  "in_behaves mem len a =
     (case con_ops (mem a) of None \<Rightarrow> True | Some ops \<Rightarrow>
        (case ops_in ops of None \<Rightarrow> True | Some f \<Rightarrow>
           (\<forall>n w. n \<le> len \<longrightarrow>
              (case f a n w of ((rc, dat), w') \<Rightarrow> 0 \<le> sint rc \<and> rc \<le> n \<and> length dat = unat rc))))"

fun drain :: "(addr \<Rightarrow> 'w uk_console) \<Rightarrow> addr list \<Rightarrow> sz \<Rightarrow> 'w \<Rightarrow> byte list \<times> call list \<times> 'w" where
  "drain mem [] room w = ([], [], w)"
| "drain mem (a # as) room w =
     (if room = 0 then ([], [], w)
      else case con_ops (mem a) of None \<Rightarrow> drain mem as room w | Some ops \<Rightarrow>
        (case ops_in ops of None \<Rightarrow> drain mem as room w | Some f \<Rightarrow>
          (case f a room w of ((rc, dat), w1) \<Rightarrow>
            (case drain mem as (room - word_of_nat (length dat)) w1 of (rest, cs, w2) \<Rightarrow>
               (dat @ rest, InCall a room rc # cs, w2)))))"

text \<open>
  What a logged call adds to the byte count of \<open>uk_console_in\<close>: the value an \<open>in\<close>
  returned when it is not negative and not above the length asked for, nothing
  otherwise. \<open>call_dev\<close> is the device of a logged call. \<open>always_negative\<close> says that a
  device's \<open>in\<close> returns a negative value whatever it is asked.
\<close>

definition credited :: "call \<Rightarrow> nat" where
  "credited c = (case c of OutCall a b n \<Rightarrow> 0
     | InCall a n rc \<Rightarrow> if 0 \<le> sint rc \<and> rc \<le> n then unat rc else 0)"

fun call_dev :: "call \<Rightarrow> addr" where
  "call_dev (OutCall a b n) = a"
| "call_dev (InCall a n rc) = a"

definition always_negative :: "(addr \<Rightarrow> 'w uk_console) \<Rightarrow> addr \<Rightarrow> bool" where
  "always_negative mem a =
     (case con_ops (mem a) of None \<Rightarrow> True | Some ops \<Rightarrow>
        (case ops_in ops of None \<Rightarrow> True | Some f \<Rightarrow>
           (\<forall>n w. sint (fst (fst (f a n w))) < 0)))"

text \<open>
  For the driver: \<open>tx_empty_within io n h\<close> says that from the UART state \<open>h\<close> one of the
  next \<open>n\<close> reads of the line status register has the TX-empty bit set;
  \<open>tx_always_drains\<close> that this holds from every state for some \<open>n\<close>; \<open>tx_stuck\<close> that
  no read ever has the bit set. \<open>thr_writes\<close> are the values written at the offset of
  THR, in order: the bytes transmitted. \<open>crlf\<close> is what the spec asks to be emitted for
  one byte of the buffer: a line feed preceded by a carriage return, any other byte as
  it is.
\<close>

fun tx_empty_within :: "'h ns16550_io \<Rightarrow> nat \<Rightarrow> 'h \<Rightarrow> bool" where
  "tx_empty_within io 0 h = False"
| "tx_empty_within io (Suc n) h =
     (case io_read io h NS16550_LSR_OFFSET of (v, h') \<Rightarrow>
        v AND NS16550_LSR_TX_EMPTY \<noteq> 0 \<or> tx_empty_within io n h')"

definition tx_always_drains :: "'h ns16550_io \<Rightarrow> bool" where
  "tx_always_drains io = (\<forall>h. \<exists>n. tx_empty_within io n h)"

definition thr_writes :: "'h ns16550_device \<Rightarrow> u32 list" where
  "thr_writes dev = map snd (filter (\<lambda>p. fst p = NS16550_THR_OFFSET) (written dev))"

definition crlf :: "byte \<Rightarrow> u32 list" where
  "crlf c = (if c = 10 then [13, 10] else [ucast c])"

definition tx_stuck :: "'h ns16550_io \<Rightarrow> bool" where
  "tx_stuck io = (\<forall>h. fst (io_read io h NS16550_LSR_OFFSET) AND NS16550_LSR_TX_EMPTY = 0)"

section \<open>Zero length and null arguments\<close>

text \<open>
  C9. In \<open>uk_console_out\<close>, \<open>uk_console_in\<close>, \<open>uk_console_out_direct\<close> and
  \<open>uk_console_in_direct\<close> the test of \<open>len\<close> comes first: with length 0 each returns 0,
  whatever the buffer and the device reference are (null included), and the state with
  its log of device calls is unchanged, so no device function runs.
\<close>

theorem zero_length_first:
  "uk_console_out buf 0 s = Inr (0, s) \<and>
   uk_console_in buf 0 s = Inr (0, buf, s) \<and>
   uk_console_out_direct dev buf 0 s = (0, s) \<and>
   uk_console_in_direct dev buf 0 s = (0, [], s)"
  by (simp add: uk_console_out_def uk_console_in_def uk_console_out_direct_def
      uk_console_in_direct_def)

theorem zero_length_first_witness:
  "uk_console_out None 0 (boot spare_mem quiet) = Inr (0, boot spare_mem quiet) \<and>
   uk_console_in None 0 (boot spare_mem quiet) = Inr (0, None, boot spare_mem quiet) \<and>
   uk_console_out_direct None None 0 (boot spare_mem quiet) = (0, boot spare_mem quiet) \<and>
   uk_console_in_direct None None 0 (boot spare_mem quiet) = (0, [], boot spare_mem quiet)"
  using zero_length_first [of None "boot spare_mem quiet" None] by simp

text \<open>
  C6. \<open>uk_console_out\<close> with length 0 returns 0, and with a null buffer and a nonzero
  length it returns \<open>-EINVAL\<close>; in both cases the state and its log of device calls are
  unchanged, so no device's \<open>out\<close> runs.
\<close>

theorem uk_console_out_invalid:
  "uk_console_out buf 0 s = Inr (0, s) \<and>
   (len \<noteq> 0 \<longrightarrow> uk_console_out None len s = Inr (- EINVAL, s))"
  by (simp add: uk_console_out_def)

theorem uk_console_out_invalid_witness:
  "uk_console_out (Some [104, 105]) 0 (boot spare_mem quiet) = Inr (0, boot spare_mem quiet) \<and>
   uk_console_out None 5 (boot spare_mem quiet) = Inr (- 22, boot spare_mem quiet)"
  using uk_console_out_invalid [of "Some [104, 105]" "boot spare_mem quiet" 5]
  by (simp add: EINVAL_def)

section \<open>Direct input and output\<close>

lemma logged_neq: "s\<lparr>hw := w, calls := calls s @ [c]\<rparr> \<noteq> s"
proof
  assume "s\<lparr>hw := w, calls := calls s @ [c]\<rparr> = s"
  then have "calls (s\<lparr>hw := w, calls := calls s @ [c]\<rparr>) = calls s" by simp
  then show False by simp
qed

text \<open>
  C7, as the code has it. With a nonzero length, \<open>uk_console_out_direct\<close> returns
  \<open>-EINVAL\<close> with the state and the call log unchanged (no device function has run)
  exactly when the buffer is null, the device reference is null, its \<open>ops\<close> is null or
  its \<open>out\<close> is null; and \<open>uk_console_in_direct\<close> likewise with \<open>in\<close>. Whether the
  device is registered plays no part.
\<close>

theorem direct_io_einval_iff:
  "len \<noteq> 0 \<Longrightarrow>
   (uk_console_out_direct dev buf len s = (- EINVAL, s)) = (buf = None \<or> lacks_out s dev) \<and>
   (uk_console_in_direct dev buf len s = (- EINVAL, [], s)) = (buf = None \<or> lacks_in s dev)"
  by (auto simp: uk_console_out_direct_def uk_console_in_direct_def lacks_out_def lacks_in_def
      logged_neq split: option.splits prod.splits)

theorem direct_io_einval_iff_witness:
  "uk_console_out_direct (Some 1) None 2 (boot sinks_mem quiet) = (- 22, boot sinks_mem quiet) \<and>
   uk_console_in_direct (Some 1) (Some [0, 0]) 2 (boot sinks_mem quiet) = (- 22, [], boot sinks_mem quiet) \<and>
   uk_console_out_direct (Some 1) (Some [104, 105]) 2 (boot sinks_mem quiet) \<noteq> (- 22, boot sinks_mem quiet)"
  using direct_io_einval_iff [of 2 "Some 1" None "boot sinks_mem quiet"]
    direct_io_einval_iff [of 2 "Some 1" "Some [0, 0]" "boot sinks_mem quiet"]
    direct_io_einval_iff [of 2 "Some 1" "Some [104, 105]" "boot sinks_mem quiet"]
  by (simp add: lacks_out_def lacks_in_def boot_def sinks_mem_def UK_CONSOLE_def EINVAL_def)

text \<open>
  Against C7 as the spec states it: the device at address 7 is in no registry (nothing has been
  registered), and a direct write to it calls its \<open>out\<close> and returns what that returns.
\<close>

theorem direct_io_unregistered_counterexample:
  "7 \<notin> set (uk_console_device_list (boot spare_mem quiet)) \<and>
   uk_console_out_direct (Some 7) (Some [104, 105]) 2 (boot spare_mem quiet) =
     (2, (boot spare_mem quiet)\<lparr>hw := quiet(7 := [104, 105]), calls := [OutCall 7 [104, 105] 2]\<rparr>) \<and>
   2 \<noteq> - EINVAL"
  by (simp add: uk_console_out_direct_def boot_def spare_mem_def UK_CONSOLE_def sink_out_def
      quiet_def EINVAL_def)

section \<open>Broadcast output\<close>

lemma uk_console_out_loop_deliver:
  "list_all (\<lambda>a. con_ops (devs s a) \<noteq> None) as \<Longrightarrow> len \<noteq> 0 \<Longrightarrow>
   uk_console_out_loop as (Some b) len s =
     Inr (s\<lparr>hw := deliver (devs s)
                 (filter (\<lambda>a. con_flags (devs s a) AND UK_CONSOLE_FLAG_STDOUT \<noteq> 0 \<and> has_out (devs s) a) as)
                 b len (hw s),
            calls := calls s @ map (\<lambda>a. OutCall a b len)
                 (filter (\<lambda>a. con_flags (devs s a) AND UK_CONSOLE_FLAG_STDOUT \<noteq> 0 \<and> has_out (devs s) a) as)\<rparr>)"
proof (induction as arbitrary: s)
  case Nil
  then show ?case by simp
next
  case (Cons a as)
  then show ?case
    by (auto simp: has_out_def uk_console_out_direct_def split: option.splits prod.splits)
qed

lemma sint_small:
  fixes x :: "64 word"
  assumes "x \<le> 0x7FFFFFFFFFFFFFFF"
  shows "sint x = uint x"
proof -
  have u: "uint x \<le> 0x7FFFFFFFFFFFFFFF" using assms by (simp add: word_le_def)
  have l: "- (2 ^ 63) \<le> uint x"
  proof -
    have a: "- (2 ^ 63) \<le> (0::int)" by simp
    have b: "(0::int) \<le> uint x" by simp
    show ?thesis using a b by (rule order_trans)
  qed
  have h: "uint x < 2 ^ 63" using u by simp
  have "signed_take_bit 63 (uint x) = uint x"
    using l h by (rule signed_take_bit_int_eq_self)
  then show ?thesis by (simp add: sint_uint)
qed

lemma registered_sinks:
  "registered [1, 2] sinks_mem quiet =
     \<lparr>devs = sinks_mem
        (1 := UK_CONSOLE ''A'' (Some \<lparr>ops_out = Some sink_out, ops_in = None\<rparr>) 1,
         2 := (UK_CONSOLE ''B'' (Some \<lparr>ops_out = Some short_out, ops_in = None\<rparr>) 1)\<lparr>con_id := 1\<rparr>),
      uk_console_device_list = [1, 2], uk_console_device_count = 2,
      uk_console_set_standard_once = 1, hw = quiet, calls = []\<rparr>"
  by (simp add: registered_def boot_def sinks_mem_def uk_console_register_def UK_CONSOLE_def
      UK_CONSOLE_FLAG_STDOUT_def UK_CONSOLE_FLAG_STDIN_def Let_def)

text \<open>
  C2, as the code has it. With a non-null buffer and a nonzero length, on a registry
  whose devices all have an \<open>ops\<close> structure, \<open>uk_console_out\<close> calls \<open>out\<close> once for each
  registered device that is flagged IS_STDOUT and has an \<open>out\<close>, in registration order,
  each time with the whole buffer and \<open>len\<close> (the calls appended to the log are exactly
  these); what the devices return is dropped. The 64-bit value returned is that of
  \<open>len\<close>, and when \<open>len\<close> is at most \<open>SSIZE_MAX\<close> the value returned, read as the signed
  \<open>__ssz\<close>, is \<open>len\<close>.
\<close>

theorem uk_console_out_broadcast:
  assumes "registry_ok s" and "len \<noteq> 0"
  shows "\<exists>ret. uk_console_out (Some b) len s =
       Inr (ret, s\<lparr>hw := deliver (devs s) (stdout_devices s) b len (hw s),
                    calls := calls s @ map (\<lambda>a. OutCall a b len) (stdout_devices s)\<rparr>) \<and>
     ret = len \<and> (len \<le> 0x7FFFFFFFFFFFFFFF \<longrightarrow> sint ret = uint len)"
proof -
  have ok: "list_all (\<lambda>a. con_ops (devs s a) \<noteq> None) (uk_console_device_list s)"
    using assms(1) by (simp add: registry_ok_def)
  have "uk_console_out (Some b) len s =
       Inr (len, s\<lparr>hw := deliver (devs s) (stdout_devices s) b len (hw s),
                    calls := calls s @ map (\<lambda>a. OutCall a b len) (stdout_devices s)\<rparr>)"
    using assms(2) uk_console_out_loop_deliver [OF ok assms(2), of b]
    by (simp add: uk_console_out_def stdout_devices_def)
  moreover have "len \<le> 0x7FFFFFFFFFFFFFFF \<longrightarrow> sint len = uint len"
    using sint_small [of len] by blast
  ultimately show ?thesis by blast
qed

theorem uk_console_out_broadcast_witness:
  "uk_console_out (Some [104, 105, 10]) 3 (registered [1, 2] sinks_mem quiet) =
     Inr (3, (registered [1, 2] sinks_mem quiet)
        \<lparr>hw := quiet(1 := [104, 105, 10], 2 := [104]),
         calls := [OutCall 1 [104, 105, 10] 3, OutCall 2 [104, 105, 10] 3]\<rparr>) \<and>
   sint (3 :: ssz) = 3"
proof -
  have ok: "registry_ok (registered [1, 2] sinks_mem quiet)"
    unfolding registered_sinks by (simp add: registry_ok_def UK_CONSOLE_def)
  have n: "(3 :: sz) \<noteq> 0" and b: "(3 :: sz) \<le> 0x7FFFFFFFFFFFFFFF" by simp_all
  from uk_console_out_broadcast [OF ok n, of "[104, 105, 10]"] b obtain ret where
    r: "uk_console_out (Some [104, 105, 10]) 3 (registered [1, 2] sinks_mem quiet) =
       Inr (ret, (registered [1, 2] sinks_mem quiet)
         \<lparr>hw := deliver (devs (registered [1, 2] sinks_mem quiet))
                  (stdout_devices (registered [1, 2] sinks_mem quiet)) [104, 105, 10] 3
                  (hw (registered [1, 2] sinks_mem quiet)),
          calls := calls (registered [1, 2] sinks_mem quiet) @
                  map (\<lambda>a. OutCall a [104, 105, 10] 3)
                    (stdout_devices (registered [1, 2] sinks_mem quiet))\<rparr>)"
    and e: "ret = 3" and sg: "sint ret = uint (3 :: sz)"
    by blast
  have "sint (3 :: ssz) = 3" using sg e by simp
  moreover have "uk_console_out (Some [104, 105, 10]) 3 (registered [1, 2] sinks_mem quiet) =
     Inr (3, (registered [1, 2] sinks_mem quiet)
        \<lparr>hw := quiet(1 := [104, 105, 10], 2 := [104]),
         calls := [OutCall 1 [104, 105, 10] 3, OutCall 2 [104, 105, 10] 3]\<rparr>)"
    using r e unfolding registered_sinks
    by (simp add: stdout_devices_def has_out_def sinks_mem_def
      UK_CONSOLE_def UK_CONSOLE_FLAG_STDOUT_def sink_out_def short_out_def quiet_def)
  ultimately show ?thesis by simp
qed

text \<open>
  Against C2 as the spec states it, for a length above \<open>SSIZE_MAX\<close>: with
  \<open>len = SIZE_MAX - 21\<close> both devices are handed the buffer and the value returned is
  \<open>-22\<close> as an \<open>__ssz\<close>, the value of \<open>-EINVAL\<close>, not the length.
\<close>

theorem uk_console_out_sign_counterexample:
  "uk_console_out (Some [104, 105, 10]) 0xFFFFFFFFFFFFFFEA (registered [1, 2] sinks_mem quiet) =
     Inr (- EINVAL, (registered [1, 2] sinks_mem quiet)
        \<lparr>hw := quiet(1 := [104, 105, 10], 2 := [104]),
         calls := [OutCall 1 [104, 105, 10] 0xFFFFFFFFFFFFFFEA,
                   OutCall 2 [104, 105, 10] 0xFFFFFFFFFFFFFFEA]\<rparr>) \<and>
   sint (- EINVAL) = - 22 \<and>
   uint (0xFFFFFFFFFFFFFFEA :: sz) = 18446744073709551594"
  unfolding registered_sinks
  by (simp add: uk_console_out_def uk_console_out_direct_def UK_CONSOLE_def
      UK_CONSOLE_FLAG_STDOUT_def sink_out_def short_out_def quiet_def EINVAL_def)

section \<open>Registration\<close>

lemma register_step:
  "con_ops (devs s a) \<noteq> None \<Longrightarrow> a \<notin> set (uk_console_device_list s) \<Longrightarrow>
   uk_console_register (Some a) s =
     Inr (s\<lparr>devs := (devs s)(a := (devs s a)\<lparr>con_flags := new_flags s a,
                                             con_id := uk_console_device_count s\<rparr>),
            uk_console_device_list := uk_console_device_list s @ [a],
            uk_console_device_count := uk_console_device_count s + 1,
            uk_console_set_standard_once :=
              (if con_flags (devs s a) \<noteq> 0 \<or> uk_console_set_standard_once s = 0 then 1
               else uk_console_set_standard_once s)\<rparr>)"
  by (auto simp: uk_console_register_def new_flags_def Let_def)

lemma register_all_effect:
  "distinct as \<Longrightarrow> set as \<inter> set (uk_console_device_list s) = {} \<Longrightarrow>
   \<forall>b\<in>set as. con_ops (devs s b) \<noteq> None \<Longrightarrow>
   \<exists>s'. register_all as s = Inr s' \<and>
     uk_console_device_list s' = uk_console_device_list s @ as \<and>
     uk_console_device_count s' = uk_console_device_count s + word_of_nat (length as) \<and>
     hw s' = hw s \<and> calls s' = calls s \<and>
     (\<forall>b. b \<notin> set as \<longrightarrow> devs s' b = devs s b) \<and>
     (\<forall>b. con_ops (devs s' b) = con_ops (devs s b)) \<and>
     (\<forall>i<length as. con_id (devs s' (as ! i)) = uk_console_device_count s + word_of_nat i) \<and>
     (as \<noteq> [] \<longrightarrow> uk_console_set_standard_once s' \<noteq> 0) \<and>
     (as \<noteq> [] \<longrightarrow> con_flags (devs s' (hd as)) = new_flags s (hd as)) \<and>
     (uk_console_set_standard_once s \<noteq> 0 \<longrightarrow>
        (\<forall>b. con_flags (devs s' b) = con_flags (devs s b)))"
proof (induction as arbitrary: s)
  case Nil
  then show ?case by simp
next
  case (Cons a as)
  let ?s1 = "s\<lparr>devs := (devs s)(a := (devs s a)\<lparr>con_flags := new_flags s a,
                                             con_id := uk_console_device_count s\<rparr>),
            uk_console_device_list := uk_console_device_list s @ [a],
            uk_console_device_count := uk_console_device_count s + 1,
            uk_console_set_standard_once :=
              (if con_flags (devs s a) \<noteq> 0 \<or> uk_console_set_standard_once s = 0 then 1
               else uk_console_set_standard_once s)\<rparr>"
  from Cons.prems have step: "uk_console_register (Some a) s = Inr ?s1"
    by (intro register_step) auto
  have once1: "uk_console_set_standard_once ?s1 \<noteq> 0" by simp
  from Cons.prems have p1: "distinct as" and p2: "set as \<inter> set (uk_console_device_list ?s1) = {}"
    and p3: "\<forall>b\<in>set as. con_ops (devs ?s1 b) \<noteq> None"
    by auto
  from Cons.IH [OF p1 p2 p3] obtain s' where
    r: "register_all as ?s1 = Inr s'" and
    l: "uk_console_device_list s' = uk_console_device_list ?s1 @ as" and
    c: "uk_console_device_count s' = uk_console_device_count ?s1 + word_of_nat (length as)" and
    h: "hw s' = hw ?s1" "calls s' = calls ?s1" and
    d: "\<forall>b. b \<notin> set as \<longrightarrow> devs s' b = devs ?s1 b" and
    o: "\<forall>b. con_ops (devs s' b) = con_ops (devs ?s1 b)" and
    i: "\<forall>i<length as. con_id (devs s' (as ! i)) = uk_console_device_count ?s1 + word_of_nat i" and
    f: "\<forall>b. con_flags (devs s' b) = con_flags (devs ?s1 b)"
    using once1 by blast
  have a_notin: "a \<notin> set as" using Cons.prems by simp
  have "register_all (a # as) s = Inr s'" using step r by simp
  moreover have "uk_console_device_list s' = uk_console_device_list s @ a # as" using l by simp
  moreover have "uk_console_device_count s' = uk_console_device_count s + word_of_nat (length (a # as))"
    using c by simp
  moreover have "hw s' = hw s" "calls s' = calls s" using h by simp_all
  moreover have "\<forall>b. b \<notin> set (a # as) \<longrightarrow> devs s' b = devs s b" using d by simp
  moreover have "\<forall>b. con_ops (devs s' b) = con_ops (devs s b)" using o by simp
  moreover have "\<forall>i<length (a # as). con_id (devs s' ((a # as) ! i)) = uk_console_device_count s + word_of_nat i"
  proof (intro allI impI)
    fix j assume "j < length (a # as)"
    show "con_id (devs s' ((a # as) ! j)) = uk_console_device_count s + word_of_nat j"
    proof (cases j)
      case 0
      then show ?thesis using d a_notin by simp
    next
      case (Suc k)
      then show ?thesis using i \<open>j < length (a # as)\<close> by simp
    qed
  qed
  moreover have "uk_console_set_standard_once s' \<noteq> 0"
    using f once1 Cons.IH [OF p1 p2 p3] r by (cases as) auto
  moreover have "con_flags (devs s' (hd (a # as))) = new_flags s (hd (a # as))" using f by simp
  moreover have "uk_console_set_standard_once s \<noteq> 0 \<longrightarrow> (\<forall>b. con_flags (devs s' b) = con_flags (devs s b))"
    using f by (simp add: new_flags_def)
  ultimately show ?case by blast
qed

lemma boot_registry_ok: "registry_ok (boot mem w)"
  by (simp add: registry_ok_def boot_def)

lemma register_keeps_registry_ok:
  "registry_ok s \<Longrightarrow> uk_console_register dev s = Inr s' \<Longrightarrow> registry_ok s'"
  by (auto simp: uk_console_register_def registry_ok_def Let_def list_all_iff
      split: option.splits if_splits)

text \<open>
  C4. Devices that are distinct and have an \<open>ops\<close> structure are registered one after
  the other from the initial state: every registration succeeds; the first device, when
  it came with zero flags, ends with IS_STDOUT and IS_STDIN both set, and keeps its own
  flags otherwise; every device registered after it keeps the flags it came with, so a
  later device with zero flags stays at zero, whatever the first device's flags were
  (IS_STDOUT alone included).
\<close>

theorem register_flag_promotion:
  assumes "distinct (a # as)" and "\<forall>b\<in>set (a # as). con_ops (mem b) \<noteq> None"
  shows "\<exists>s. register_all (a # as) (boot mem w) = Inr s \<and>
     con_flags (devs s a) =
       (if con_flags (mem a) = 0 then UK_CONSOLE_FLAG_STDOUT OR UK_CONSOLE_FLAG_STDIN
        else con_flags (mem a)) \<and>
     (\<forall>b\<in>set as. con_flags (devs s b) = con_flags (mem b))"
proof -
  let ?s0 = "boot mem w"
  let ?s1 = "?s0\<lparr>devs := (devs ?s0)(a := (devs ?s0 a)\<lparr>con_flags := new_flags ?s0 a,
                                             con_id := uk_console_device_count ?s0\<rparr>),
            uk_console_device_list := uk_console_device_list ?s0 @ [a],
            uk_console_device_count := uk_console_device_count ?s0 + 1,
            uk_console_set_standard_once :=
              (if con_flags (devs ?s0 a) \<noteq> 0 \<or> uk_console_set_standard_once ?s0 = 0 then 1
               else uk_console_set_standard_once ?s0)\<rparr>"
  have step: "uk_console_register (Some a) ?s0 = Inr ?s1"
    using assms by (intro register_step) (simp_all add: boot_def)
  have once1: "uk_console_set_standard_once ?s1 \<noteq> 0" by simp
  have p1: "distinct as" using assms by simp
  have p2: "set as \<inter> set (uk_console_device_list ?s1) = {}" using assms by (simp add: boot_def)
  have p3: "\<forall>b\<in>set as. con_ops (devs ?s1 b) \<noteq> None" using assms by (simp add: boot_def)
  from register_all_effect [OF p1 p2 p3] once1 obtain s where
    r: "register_all as ?s1 = Inr s" and
    f: "\<forall>b. con_flags (devs s b) = con_flags (devs ?s1 b)"
    by blast
  have "register_all (a # as) ?s0 = Inr s" using step r by simp
  moreover have "con_flags (devs s a) =
       (if con_flags (mem a) = 0 then UK_CONSOLE_FLAG_STDOUT OR UK_CONSOLE_FLAG_STDIN
        else con_flags (mem a))"
    using f by (simp add: new_flags_def boot_def)
  moreover have "\<forall>b\<in>set as. con_flags (devs s b) = con_flags (mem b)"
    using f assms by (auto simp: boot_def)
  ultimately show ?thesis by blast
qed

theorem register_flag_promotion_witness:
  "con_flags (devs (registered [1, 2] spare_mem quiet) 1) = 3 \<and>
   con_flags (devs (registered [1, 2] spare_mem quiet) 2) = 0 \<and>
   con_flags (devs (registered [1, 3] sinks_mem quiet) 1) = 1 \<and>
   con_flags (devs (registered [1, 3] sinks_mem quiet) 3) = 0"
proof -
  from register_flag_promotion [of 1 "[2]" spare_mem quiet] obtain s where
    "register_all [1, 2] (boot spare_mem quiet) = Inr s"
    "con_flags (devs s 1) = 3" "con_flags (devs s 2) = 0"
    by (auto simp: spare_mem_def UK_CONSOLE_def UK_CONSOLE_FLAG_STDOUT_def UK_CONSOLE_FLAG_STDIN_def)
  moreover from register_flag_promotion [of 1 "[3]" sinks_mem quiet] obtain t where
    "register_all [1, 3] (boot sinks_mem quiet) = Inr t"
    "con_flags (devs t 1) = 1" "con_flags (devs t 3) = 0"
    by (auto simp: sinks_mem_def spare_mem_def UK_CONSOLE_def UK_CONSOLE_FLAG_STDOUT_def UK_CONSOLE_FLAG_STDIN_def)
  ultimately show ?thesis by (simp add: registered_def)
qed

text \<open>
  C5, as the code has it. Devices that are distinct and have an \<open>ops\<close> structure are
  registered one after the other from the initial state: after the first \<open>k\<close>
  registrations \<open>uk_console_count\<close> is \<open>k mod 65536\<close> and the device registered \<open>i\<close>-th
  (from 0) has id \<open>i mod 65536\<close>, the counter being a \<open>__u16\<close>. Up to 65535 registrations
  the ids are 0, 1, ..., \<open>k - 1\<close> and the count is \<open>k\<close>.
\<close>

theorem register_ids_count:
  assumes "distinct as" and "\<forall>b\<in>set as. con_ops (mem b) \<noteq> None"
  shows "\<forall>k\<le>length as. \<exists>s. register_all (take k as) (boot mem w) = Inr s \<and>
     unat (uk_console_count s) = k mod 65536 \<and>
     (\<forall>i<k. unat (con_id (devs s (as ! i))) = i mod 65536)"
proof (intro allI impI)
  fix k assume k: "k \<le> length as"
  have p1: "distinct (take k as)" using assms by simp
  have p2: "set (take k as) \<inter> set (uk_console_device_list (boot mem w)) = {}"
    by (simp add: boot_def)
  have p3: "\<forall>b\<in>set (take k as). con_ops (devs (boot mem w) b) \<noteq> None"
    using assms by (auto simp: boot_def dest: in_set_takeD)
  from register_all_effect [OF p1 p2 p3] obtain s where
    r: "register_all (take k as) (boot mem w) = Inr s" and
    c: "uk_console_device_count s = uk_console_device_count (boot mem w) + word_of_nat (length (take k as))" and
    i: "\<forall>i<length (take k as). con_id (devs s (take k as ! i)) = uk_console_device_count (boot mem w) + word_of_nat i"
    by blast
  have lt: "length (take k as) = k" using k by simp
  have "unat (uk_console_count s) = k mod 65536"
    using c unfolding lt by (simp add: uk_console_count_def boot_def unat_of_nat)
  moreover have "\<forall>i<k. unat (con_id (devs s (as ! i))) = i mod 65536"
  proof (intro allI impI)
    fix j assume j: "j < k"
    then have "con_id (devs s (take k as ! j)) = uk_console_device_count (boot mem w) + word_of_nat j"
      using i lt by simp
    then show "unat (con_id (devs s (as ! j))) = j mod 65536"
      using j by (simp add: boot_def unat_of_nat)
  qed
  ultimately show "\<exists>s. register_all (take k as) (boot mem w) = Inr s \<and>
     unat (uk_console_count s) = k mod 65536 \<and>
     (\<forall>i<k. unat (con_id (devs s (as ! i))) = i mod 65536)"
    using r by blast
qed

theorem register_ids_count_witness:
  "uk_console_count (registered [1, 2, 3] spare_mem quiet) = 3 \<and>
   con_id (devs (registered [1, 2, 3] spare_mem quiet) 1) = 0 \<and>
   con_id (devs (registered [1, 2, 3] spare_mem quiet) 2) = 1 \<and>
   con_id (devs (registered [1, 2, 3] spare_mem quiet) 3) = 2"
proof -
  have d: "distinct [1, 2, 3 :: nat]" by simp
  have o: "\<forall>b\<in>set [1, 2, 3]. con_ops (spare_mem b) \<noteq> None"
    by (simp add: spare_mem_def UK_CONSOLE_def)
  have k: "3 \<le> length [1, 2, 3 :: nat]" by simp
  from register_ids_count [OF d o, of quiet, rule_format, OF k]
  obtain s where r: "register_all (take 3 [1, 2, 3]) (boot spare_mem quiet) = Inr s"
    and c: "unat (uk_console_count s) = 3 mod 65536"
    and i: "\<forall>i<3. unat (con_id (devs s ([1, 2, 3] ! i))) = i mod 65536"
    by blast
  have "unat (con_id (devs s 1)) = 0" using i [rule_format, of 0] by simp
  then have "con_id (devs s 1) = 0" by (simp add: unat_eq_0)
  moreover have "unat (con_id (devs s 2)) = 1" using i [rule_format, of 1] by simp
  then have "con_id (devs s 2) = 1" using word_unat_eq_iff [of "con_id (devs s 2)" 1] by simp
  moreover have "unat (con_id (devs s 3)) = 2" using i [rule_format, of 2] by simp
  then have "con_id (devs s 3) = 2" using word_unat_eq_iff [of "con_id (devs s 3)" 2] by simp
  moreover have "uk_console_count s = 3" using c word_unat_eq_iff [of "uk_console_count s" 3] by simp
  moreover have "registered [1, 2, 3] spare_mem quiet = s" using r by (simp add: registered_def)
  ultimately show ?thesis by simp
qed

text \<open>
  Against C5 as the spec states it, at 65536 registrations of distinct devices: the list holds
  65536 devices and \<open>uk_console_count\<close> is 0.
\<close>

theorem register_wraps_counterexample:
  "length (uk_console_device_list (registered [0..<65536] spare_mem quiet)) = 65536 \<and>
   uk_console_count (registered [0..<65536] spare_mem quiet) = 0"
proof -
  have p2: "set [0..<65536] \<inter> set (uk_console_device_list (boot spare_mem quiet)) = {}"
    by (simp only: boot_def kernel.simps list.set Int_empty_right)
  have p3: "\<forall>b\<in>set [0..<65536]. con_ops (devs (boot spare_mem quiet) b) \<noteq> None"
    by (simp add: spare_mem_def UK_CONSOLE_def boot_def del: upt_rec_numeral)
  from register_all_effect [OF distinct_upt p2 p3] obtain s where
    r: "register_all [0..<65536] (boot spare_mem quiet) = Inr s" and
    l: "uk_console_device_list s = uk_console_device_list (boot spare_mem quiet) @ [0..<65536]" and
    c: "uk_console_device_count s = uk_console_device_count (boot spare_mem quiet) + word_of_nat (length [0..<65536])"
    by blast
  have "registered [0..<65536] spare_mem quiet = s"
    unfolding registered_def r by simp
  moreover have "length (uk_console_device_list s) = 65536"
    unfolding l by (simp add: boot_def del: upt_rec_numeral)
  moreover have "uk_console_count s = 0"
    unfolding uk_console_count_def c by (simp add: boot_def del: upt_rec_numeral)
  ultimately show ?thesis by simp
qed

section \<open>Aggregate input\<close>

lemma in_behavesD:
  assumes "in_behaves mem len a" and "con_ops (mem a) = Some ops" and "ops_in ops = Some f"
    and "n \<le> len" and "f a n w = ((rc, dat), w')"
  shows "0 \<le> sint rc" and "rc \<le> n" and "length dat = unat rc"
proof -
  have A: "\<And>m v. m \<le> len \<Longrightarrow>
      (case f a m v of ((rc, dat), w') \<Rightarrow> 0 \<le> sint rc \<and> rc \<le> m \<and> length dat = unat rc)"
    using assms(1-3) by (simp add: in_behaves_def)
  from A [OF assms(4), of w] show "0 \<le> sint rc" and "rc \<le> n" and "length dat = unat rc"
    by (simp_all add: assms(5))
qed

lemma in_behaves_mono:
  assumes "in_behaves mem len a" and "n \<le> len"
  shows "in_behaves mem n a"
proof (cases "con_ops (mem a)")
  case None
  then show ?thesis by (simp add: in_behaves_def)
next
  case (Some ops)
  show ?thesis
  proof (cases "ops_in ops")
    case None
    then show ?thesis using Some by (simp add: in_behaves_def)
  next
    case f: (Some f)
    have A: "\<And>m v. m \<le> len \<Longrightarrow>
      (case f a m v of ((rc, dat), w') \<Rightarrow> 0 \<le> sint rc \<and> rc \<le> m \<and> length dat = unat rc)"
      using assms(1) Some f by (simp add: in_behaves_def)
    have "\<And>m v. m \<le> n \<Longrightarrow>
      (case f a m v of ((rc, dat), w') \<Rightarrow> 0 \<le> sint rc \<and> rc \<le> m \<and> length dat = unat rc)"
    proof -
      fix m v assume "m \<le> n"
      then have "m \<le> len" using assms(2) by (rule order_trans)
      then show "case f a m v of ((rc, dat), w') \<Rightarrow> 0 \<le> sint rc \<and> rc \<le> m \<and> length dat = unat rc"
        by (rule A)
    qed
    then show ?thesis using Some f by (simp add: in_behaves_def)
  qed
qed

lemma drain_full: "drain mem as 0 w = ([], [], w)"
  by (cases as) simp_all

lemma uk_console_in_loop_drain:
  "list_all (\<lambda>a. con_ops (devs s a) \<noteq> None) as \<Longrightarrow> leftover \<noteq> 0 \<Longrightarrow>
   \<forall>a\<in>set (filter (\<lambda>a. con_flags (devs s a) AND UK_CONSOLE_FLAG_STDIN \<noteq> 0 \<and> has_in (devs s) a) as).
      in_behaves (devs s) leftover a \<Longrightarrow>
   drain (devs s)
     (filter (\<lambda>a. con_flags (devs s a) AND UK_CONSOLE_FLAG_STDIN \<noteq> 0 \<and> has_in (devs s) a) as)
     leftover (hw s) = (got, cs, w') \<Longrightarrow>
   uk_console_in_loop as done buf leftover s =
     Inr (done @ got @ drop (length got) buf, leftover - word_of_nat (length got),
          s\<lparr>hw := w', calls := calls s @ cs\<rparr>) \<and>
   length got \<le> unat leftover"
proof (induction as arbitrary: s leftover got cs w' "done" buf)
  case Nil
  then show ?case by simp
next
  case (Cons a as)
  let ?P = "\<lambda>s a. con_flags (devs s a) AND UK_CONSOLE_FLAG_STDIN \<noteq> 0 \<and> has_in (devs s) a"
  from Cons.prems(1) obtain ops where ops: "con_ops (devs s a) = Some ops" and
    rest_ok: "list_all (\<lambda>a. con_ops (devs s a) \<noteq> None) as"
    by auto
  have beh_rest: "\<forall>b\<in>set (filter (?P s) as). in_behaves (devs s) leftover b"
    using Cons.prems(3) by simp
  show ?case
  proof (cases "?P s a")
    case False
    then have fl: "filter (?P s) (a # as) = filter (?P s) as" by auto
    have d: "drain (devs s) (filter (?P s) as) leftover (hw s) = (got, cs, w')"
      using Cons.prems(4) unfolding fl .
    have skip: "uk_console_in_loop (a # as) done buf leftover s =
        uk_console_in_loop as done buf leftover s"
      using False ops by (auto simp: has_in_def)
    from Cons.IH [OF rest_ok Cons.prems(2) beh_rest d, of "done" buf]
    show ?thesis unfolding skip .
  next
    case True
    then obtain f where f: "ops_in ops = Some f" using ops by (auto simp: has_in_def)
    have fl: "filter (?P s) (a # as) = a # filter (?P s) as" using True by simp
    obtain rc dat w1 where r: "f a leftover (hw s) = ((rc, dat), w1)"
      by (cases "f a leftover (hw s)") auto
    have beh_a: "in_behaves (devs s) leftover a" using Cons.prems(3) True by simp
    note b = in_behavesD [OF beh_a ops f order_refl r]
    have len_dat: "length dat \<le> unat leftover" using b(2,3) by (simp add: word_le_nat_alt)
    have rc_dat: "word_of_nat (length dat) = rc" using b(3) by simp
    let ?s1 = "s\<lparr>hw := w1, calls := calls s @ [InCall a leftover rc]\<rparr>"
    have direct: "uk_console_in_direct (Some a) (Some buf) leftover s = (rc, dat, ?s1)"
      using Cons.prems(2) ops f r len_dat by (simp add: uk_console_in_direct_def)
    obtain rest cs2 w2 where d: "drain (devs s) (filter (?P s) as) (leftover - rc) w1 = (rest, cs2, w2)"
      by (cases "drain (devs s) (filter (?P s) as) (leftover - rc) w1") auto
    have "drain (devs s) (a # filter (?P s) as) leftover (hw s) =
        (dat @ rest, InCall a leftover rc # cs2, w2)"
      using Cons.prems(2) ops f r d rc_dat by simp
    then have got: "got = dat @ rest" "cs = InCall a leftover rc # cs2" "w' = w2"
      using Cons.prems(4) unfolding fl by simp_all
    have step: "uk_console_in_loop (a # as) done buf leftover s =
        (if leftover - rc = 0
         then Inr ((done @ dat) @ drop (length dat) buf, leftover - rc, ?s1)
         else uk_console_in_loop as (done @ dat) (drop (length dat) buf) (leftover - rc) ?s1)"
      using True ops f direct b by (simp add: store_bytes_def Let_def)
    show ?thesis
    proof (cases "leftover - rc = 0")
      case z: True
      then have e: "rest = []" "cs2 = []" "w2 = w1" using d by (simp_all add: drain_full)
      show ?thesis unfolding step got e using z len_dat rc_dat by simp
    next
      case nz: False
      have le: "leftover - rc \<le> leftover" using b(2) by (simp add: word_sub_le)
      have p1: "list_all (\<lambda>a. con_ops (devs ?s1 a) \<noteq> None) as" using rest_ok by simp
      have p3: "\<forall>b\<in>set (filter (?P ?s1) as). in_behaves (devs ?s1) (leftover - rc) b"
      proof
        fix b assume "b \<in> set (filter (?P ?s1) as)"
        then have "b \<in> set (filter (?P s) as)" by simp
        then have "in_behaves (devs s) leftover b" using beh_rest by blast
        then have "in_behaves (devs s) (leftover - rc) b" using le by (rule in_behaves_mono)
        then show "in_behaves (devs ?s1) (leftover - rc) b" by simp
      qed
      have p4: "drain (devs ?s1) (filter (?P ?s1) as) (leftover - rc) (hw ?s1) = (rest, cs2, w2)"
        using d by simp
      from Cons.IH [OF p1 nz p3 p4, of "done @ dat" "drop (length dat) buf"]
      have ih: "uk_console_in_loop as (done @ dat) (drop (length dat) buf) (leftover - rc) ?s1 =
          Inr ((done @ dat) @ rest @ drop (length rest) (drop (length dat) buf),
               leftover - rc - word_of_nat (length rest),
               ?s1\<lparr>hw := w2, calls := calls ?s1 @ cs2\<rparr>)"
        and ihl: "length rest \<le> unat (leftover - rc)"
        by blast+
      have un: "unat (leftover - rc) = unat leftover - unat rc" using b(2) by (simp add: unat_sub)
      have tot: "length dat + length rest \<le> unat leftover" using ihl un b(3) len_dat by simp
      have w: "leftover - word_of_nat (length dat + length rest) =
          leftover - rc - word_of_nat (length rest)"
        using rc_dat by (simp add: diff_diff_eq)
      show ?thesis unfolding step got using nz ih tot w by (simp add: add.commute)
    qed
  qed
qed

lemma fifo_in_behaves:
  assumes "len \<le> 0x7FFFFFFFFFFFFFFF" and "con_ops (mem a) = Some ops"
    and "ops_in ops = Some fifo_in"
  shows "in_behaves mem len a"
proof -
  have "0 \<le> sint rc \<and> rc \<le> n \<and> length dat = unat rc"
    if n: "n \<le> len" and r: "fifo_in a n w = ((rc, dat), w')" for n w rc dat w'
  proof -
    let ?m = "min (unat n) (length (w a))"
    have rc: "rc = word_of_nat ?m" and dat: "dat = take (unat n) (w a)"
      using r by (simp_all add: fifo_in_def)
    have m: "unat rc = ?m" unfolding rc by (rule le_unat_uoi [of _ n]) simp
    have "rc \<le> n" using m by (simp add: word_le_nat_alt)
    moreover have "rc \<le> 0x7FFFFFFFFFFFFFFF" using \<open>rc \<le> n\<close> n assms(1) by simp
    then have "0 \<le> sint rc" by (simp add: sint_small)
    moreover have "length dat = unat rc" using m dat by (simp add: min.commute)
    ultimately show ?thesis by simp
  qed
  then show ?thesis using assms(2,3) by (auto simp: in_behaves_def)
qed

text \<open>
  C3. With a non-null buffer and a nonzero length, on a registry whose devices all have
  an \<open>ops\<close> structure, when the \<open>in\<close> of every IS_STDIN device returns its available
  bytes (not negative, at most what was asked): \<open>uk_console_in\<close> does what \<open>drain\<close>
  does. The IS_STDIN devices with an \<open>in\<close> are asked in registration order, each for
  the room still left; their bytes land one after the other at the start of the
  buffer, the rest of the buffer is untouched; no device is asked once the buffer is
  full; the return value is the number of bytes gathered (0 when no device has data),
  and it is at most \<open>len\<close>.
\<close>

theorem uk_console_in_aggregate:
  assumes "registry_ok s" and "len \<noteq> 0"
    and "\<forall>a\<in>set (stdin_devices s). in_behaves (devs s) len a"
    and "drain (devs s) (stdin_devices s) len (hw s) = (got, cs, w')"
  shows "uk_console_in (Some b) len s =
           Inr (word_of_nat (length got), Some (got @ drop (length got) b),
                s\<lparr>hw := w', calls := calls s @ cs\<rparr>) \<and>
         length got \<le> unat len"
proof -
  have ok: "list_all (\<lambda>a. con_ops (devs s a) \<noteq> None) (uk_console_device_list s)"
    using assms(1) by (simp add: registry_ok_def)
  from uk_console_in_loop_drain [OF ok assms(2) assms(3) [unfolded stdin_devices_def]
      assms(4) [unfolded stdin_devices_def], of "[]" b]
  show ?thesis using assms(2) by (simp add: uk_console_in_def)
qed

lemma registered_sources:
  "registered [1, 2] sources_mem w =
     \<lparr>devs = sources_mem
        (1 := UK_CONSOLE ''A'' (Some \<lparr>ops_out = None, ops_in = Some fifo_in\<rparr>) 2,
         2 := (UK_CONSOLE ''B'' (Some \<lparr>ops_out = None, ops_in = Some fifo_in\<rparr>) 2)\<lparr>con_id := 1\<rparr>),
      uk_console_device_list = [1, 2], uk_console_device_count = 2,
      uk_console_set_standard_once = 1, hw = w, calls = []\<rparr>"
  by (simp add: registered_def boot_def sources_mem_def uk_console_register_def UK_CONSOLE_def
      UK_CONSOLE_FLAG_STDOUT_def UK_CONSOLE_FLAG_STDIN_def Let_def)

lemma sources_behave:
  "len \<le> 0x7FFFFFFFFFFFFFFF \<Longrightarrow>
   \<forall>a\<in>set (stdin_devices (registered [1, 2] sources_mem w)).
      in_behaves (devs (registered [1, 2] sources_mem w)) len a"
  unfolding registered_sources
  by (auto simp: stdin_devices_def UK_CONSOLE_def intro!: fifo_in_behaves split: if_splits)

lemma sources_ok: "registry_ok (registered [1, 2] sources_mem w)"
  unfolding registered_sources by (simp add: registry_ok_def UK_CONSOLE_def)

lemma drain_sources_4:
  "drain (devs (registered [1, 2] sources_mem pending))
     (stdin_devices (registered [1, 2] sources_mem pending)) 4
     (hw (registered [1, 2] sources_mem pending)) =
   ([97, 98, 99, 100], [InCall 1 4 2, InCall 2 2 2], quiet(1 := [], 2 := [101, 102, 103]))"
  unfolding registered_sources
  by (simp add: stdin_devices_def has_in_def UK_CONSOLE_def UK_CONSOLE_FLAG_STDIN_def
      fifo_in_def pending_def quiet_def fun_upd_twist)

lemma drain_sources_quiet:
  "drain (devs (registered [1, 2] sources_mem quiet))
     (stdin_devices (registered [1, 2] sources_mem quiet)) 10
     (hw (registered [1, 2] sources_mem quiet)) =
   ([], [InCall 1 10 0, InCall 2 10 0], quiet)"
  unfolding registered_sources
  by (simp add: stdin_devices_def has_in_def UK_CONSOLE_def UK_CONSOLE_FLAG_STDIN_def
      fifo_in_def quiet_def fun_upd_idem)

theorem uk_console_in_aggregate_witness:
  "uk_console_in (Some [0, 0, 0, 0]) 4 (registered [1, 2] sources_mem pending) =
     Inr (4, Some [97, 98, 99, 100],
          (registered [1, 2] sources_mem pending)
            \<lparr>hw := quiet(1 := [], 2 := [101, 102, 103]), calls := [InCall 1 4 2, InCall 2 2 2]\<rparr>) \<and>
   uk_console_in (Some [7, 7, 7, 7, 7, 7, 7, 7, 7, 7]) 10 (registered [1, 2] sources_mem quiet) =
     Inr (0, Some [7, 7, 7, 7, 7, 7, 7, 7, 7, 7],
          (registered [1, 2] sources_mem quiet)\<lparr>hw := quiet, calls := [InCall 1 10 0, InCall 2 10 0]\<rparr>)"
proof -
  have n4: "(4 :: sz) \<noteq> 0" and n10: "(10 :: sz) \<noteq> 0" by simp_all
  have b4: "(4 :: sz) \<le> 0x7FFFFFFFFFFFFFFF" and b10: "(10 :: sz) \<le> 0x7FFFFFFFFFFFFFFF"
    by simp_all
  have c: "calls (registered [1, 2] sources_mem w) = []" for w
    unfolding registered_sources by simp
  from uk_console_in_aggregate [OF sources_ok n4 sources_behave [OF b4] drain_sources_4,
      of "[0, 0, 0, 0]"]
    uk_console_in_aggregate [OF sources_ok n10 sources_behave [OF b10] drain_sources_quiet,
      of "[7, 7, 7, 7, 7, 7, 7, 7, 7, 7]"]
  show ?thesis unfolding c by simp
qed

section \<open>Aggregate input with devices that fail or over-report\<close>

lemma uk_console_in_direct_log:
  assumes "con_ops (devs s a) = Some ops" and "ops_in ops = Some f"
  shows "\<exists>rc dat s1. uk_console_in_direct (Some a) (Some buf) leftover s = (rc, dat, s1) \<and>
     devs s1 = devs s \<and>
     (calls s1 = calls s \<and> rc = 0 \<or> calls s1 = calls s @ [InCall a leftover rc])"
proof (cases "leftover = 0")
  case True
  then show ?thesis by (simp add: uk_console_in_direct_def)
next
  case False
  obtain rc dat w where "f a leftover (hw s) = ((rc, dat), w)"
    by (cases "f a leftover (hw s)") auto
  then show ?thesis using False assms by (simp add: uk_console_in_direct_def)
qed

lemma uk_console_in_loop_credit:
  "list_all (\<lambda>a. con_ops (devs s a) \<noteq> None) as \<Longrightarrow>
   \<exists>mem l s' cs. uk_console_in_loop as done buf leftover s = Inr (mem, l, s') \<and>
      calls s' = calls s @ cs \<and> unat l + sum_list (map credited cs) = unat leftover"
proof (induction as arbitrary: s leftover "done" buf)
  case Nil
  then show ?case by simp
next
  case (Cons a as)
  from Cons.prems obtain ops where ops: "con_ops (devs s a) = Some ops" and
    rest_ok: "list_all (\<lambda>a. con_ops (devs s a) \<noteq> None) as"
    by auto
  show ?case
  proof (cases "con_flags (devs s a) AND UK_CONSOLE_FLAG_STDIN \<noteq> 0 \<and> ops_in ops \<noteq> None")
    case False
    then have skip: "uk_console_in_loop (a # as) done buf leftover s =
        uk_console_in_loop as done buf leftover s"
      using ops by auto
    show ?thesis unfolding skip using Cons.IH [OF rest_ok] .
  next
    case True
    then obtain f where f: "ops_in ops = Some f" by auto
    from uk_console_in_direct_log [OF ops f, of buf leftover] obtain rc dat s1 where
      direct: "uk_console_in_direct (Some a) (Some buf) leftover s = (rc, dat, s1)" and
      dv: "devs s1 = devs s" and
      lg: "calls s1 = calls s \<and> rc = 0 \<or> calls s1 = calls s @ [InCall a leftover rc]"
      by blast
    define ok where "ok = (0 \<le> sint rc \<and> rc \<le> leftover)"
    define l1 where "l1 = (if ok then leftover - rc else leftover)"
    define done1 where "done1 = (if ok then done @ take (unat rc) (store_bytes dat buf) else done)"
    define buf1 where "buf1 = (if ok then drop (unat rc) (store_bytes dat buf) else store_bytes dat buf)"
    have step: "uk_console_in_loop (a # as) done buf leftover s =
        (if l1 = 0 then Inr (done1 @ buf1, l1, s1)
         else uk_console_in_loop as done1 buf1 l1 s1)"
      using True ops f direct by (simp add: Let_def ok_def l1_def done1_def buf1_def)
    obtain c1 where c1: "calls s1 = calls s @ c1" and
      cr: "unat l1 + sum_list (map credited c1) = unat leftover"
    proof (cases ok)
      case yes: True
      then have u: "unat (leftover - rc) = unat leftover - unat rc" and le: "unat rc \<le> unat leftover"
        by (simp_all add: ok_def unat_sub word_le_nat_alt)
      from lg show ?thesis
      proof
        assume a0: "calls s1 = calls s \<and> rc = 0"
        then have "l1 = leftover" using yes by (simp add: l1_def)
        then have "unat l1 + sum_list (map credited []) = unat leftover" by simp
        moreover have "calls s1 = calls s @ []" using a0 by simp
        ultimately show ?thesis using that by blast
      next
        assume cl: "calls s1 = calls s @ [InCall a leftover rc]"
        have l: "l1 = leftover - rc" using yes by (simp add: l1_def)
        have "credited (InCall a leftover rc) = unat rc" using yes by (auto simp: credited_def ok_def)
        then have "unat l1 + sum_list (map credited [InCall a leftover rc]) = unat leftover"
          using l u le by simp
        with cl show ?thesis by (rule that)
      qed
    next
      case no: False
      then have "rc \<noteq> 0" by (auto simp: ok_def)
      then have cl: "calls s1 = calls s @ [InCall a leftover rc]" using lg by simp
      have l: "l1 = leftover" using no by (simp add: l1_def)
      have "credited (InCall a leftover rc) = 0" using no by (auto simp: credited_def ok_def)
      then have "unat l1 + sum_list (map credited [InCall a leftover rc]) = unat leftover"
        using l by simp
      with cl show ?thesis by (rule that)
    qed
    show ?thesis
    proof (cases "l1 = 0")
      case True
      then show ?thesis unfolding step using c1 cr by auto
    next
      case False
      have "list_all (\<lambda>a. con_ops (devs s1 a) \<noteq> None) as" using rest_ok dv by simp
      from Cons.IH [OF this, of done1 buf1 l1] obtain mem l s' cs where
        r: "uk_console_in_loop as done1 buf1 l1 s1 = Inr (mem, l, s')" and
        c: "calls s' = calls s1 @ cs" and
        k: "unat l + sum_list (map credited cs) = unat l1"
        by blast
      have "calls s' = calls s @ (c1 @ cs)" using c c1 by simp
      moreover have "unat l + sum_list (map credited (c1 @ cs)) = unat leftover"
        using k cr by simp
      ultimately show ?thesis unfolding step using False r by auto
    qed
  qed
qed

lemma registered_faulty:
  "registered [1, 2] faulty_mem w =
     \<lparr>devs = faulty_mem
        (1 := UK_CONSOLE ''A'' (Some \<lparr>ops_out = None, ops_in = Some failing_in\<rparr>) 2,
         2 := (UK_CONSOLE ''B'' (Some \<lparr>ops_out = None, ops_in = Some fifo_in\<rparr>) 2)\<lparr>con_id := 1\<rparr>),
      uk_console_device_list = [1, 2], uk_console_device_count = 2,
      uk_console_set_standard_once = 1, hw = w, calls = []\<rparr>"
  by (simp add: registered_def boot_def faulty_mem_def uk_console_register_def UK_CONSOLE_def
      UK_CONSOLE_FLAG_STDOUT_def UK_CONSOLE_FLAG_STDIN_def Let_def)

lemma registered_greedy:
  "registered [1, 2] greedy_mem w =
     \<lparr>devs = greedy_mem
        (1 := UK_CONSOLE ''A'' (Some \<lparr>ops_out = None, ops_in = Some greedy_in\<rparr>) 2,
         2 := (UK_CONSOLE ''B'' (Some \<lparr>ops_out = None, ops_in = Some greedy_in\<rparr>) 2)\<lparr>con_id := 1\<rparr>),
      uk_console_device_list = [1, 2], uk_console_device_count = 2,
      uk_console_set_standard_once = 1, hw = w, calls = []\<rparr>"
  by (simp add: registered_def boot_def greedy_mem_def uk_console_register_def UK_CONSOLE_def
      UK_CONSOLE_FLAG_STDOUT_def UK_CONSOLE_FLAG_STDIN_def Let_def)

lemma registered_failing:
  "registered [1, 2] failing_mem w =
     \<lparr>devs = failing_mem
        (1 := UK_CONSOLE ''A'' (Some \<lparr>ops_out = None, ops_in = Some failing_in\<rparr>) 2,
         2 := (UK_CONSOLE ''B'' (Some \<lparr>ops_out = None, ops_in = Some failing_in\<rparr>) 2)\<lparr>con_id := 1\<rparr>),
      uk_console_device_list = [1, 2], uk_console_device_count = 2,
      uk_console_set_standard_once = 1, hw = w, calls = []\<rparr>"
  by (simp add: registered_def boot_def failing_mem_def uk_console_register_def UK_CONSOLE_def
      UK_CONSOLE_FLAG_STDOUT_def UK_CONSOLE_FLAG_STDIN_def Let_def)

text \<open>
  C10, as the code has it. With a non-null buffer and a nonzero length, on a registry
  whose devices all have an \<open>ops\<close> structure, \<open>uk_console_in\<close> returns, whatever the
  devices' \<open>in\<close> return: the value returned is the sum of what the logged calls are
  credited with, so a result that is negative or above the room left adds nothing; as
  an unsigned value it is at most \<open>len\<close>; and when \<open>len\<close> is at most \<open>SSIZE_MAX\<close> it is,
  read as the signed \<open>__ssz\<close>, between 0 and \<open>len\<close>.
\<close>

theorem uk_console_in_bounds:
  assumes "registry_ok s" and "len \<noteq> 0"
  shows "\<exists>ret mem s' cs. uk_console_in (Some b) len s = Inr (ret, Some mem, s') \<and>
     calls s' = calls s @ cs \<and> unat ret = sum_list (map credited cs) \<and> ret \<le> len \<and>
     (len \<le> 0x7FFFFFFFFFFFFFFF \<longrightarrow> 0 \<le> sint ret \<and> sint ret \<le> sint len)"
proof -
  have ok: "list_all (\<lambda>a. con_ops (devs s a) \<noteq> None) (uk_console_device_list s)"
    using assms(1) by (simp add: registry_ok_def)
  from uk_console_in_loop_credit [OF ok, of "[]" b len] obtain mem l s' cs where
    r: "uk_console_in_loop (uk_console_device_list s) [] b len s = Inr (mem, l, s')" and
    c: "calls s' = calls s @ cs" and
    k: "unat l + sum_list (map credited cs) = unat len"
    by blast
  have le: "l \<le> len" using k by (simp add: word_le_nat_alt)
  have ret: "unat (len - l) = sum_list (map credited cs)" using k le by (simp add: unat_sub)
  have rl: "len - l \<le> len" using le by (simp add: word_sub_le)
  have sg: "0 \<le> sint (len - l) \<and> sint (len - l) \<le> sint len" if b: "len \<le> 0x7FFFFFFFFFFFFFFF"
  proof -
    have "len - l \<le> 0x7FFFFFFFFFFFFFFF" using rl b by (rule order_trans)
    then have "sint (len - l) = uint (len - l)" by (rule sint_small)
    moreover have "sint len = uint len" using b by (rule sint_small)
    ultimately show ?thesis using rl by (simp add: word_le_def)
  qed
  have "uk_console_in (Some b) len s = Inr (len - l, Some mem, s')"
    using assms(2) r by (simp add: uk_console_in_def)
  then show ?thesis using c ret rl sg by blast
qed

theorem uk_console_in_bounds_witness:
  "registry_ok (registered [1, 2] faulty_mem xy_pending) \<and>
   (\<exists>ret mem s' cs.
      uk_console_in (Some [0, 0, 0, 0]) 4 (registered [1, 2] faulty_mem xy_pending) =
        Inr (ret, Some mem, s') \<and>
      calls s' = calls (registered [1, 2] faulty_mem xy_pending) @ cs \<and>
      unat ret = sum_list (map credited cs) \<and> ret \<le> 4 \<and>
      0 \<le> sint ret \<and> sint ret \<le> sint (4 :: sz))"
proof -
  have ok: "registry_ok (registered [1, 2] faulty_mem xy_pending)"
    unfolding registered_faulty by (simp add: registry_ok_def UK_CONSOLE_def)
  have n: "(4 :: sz) \<noteq> 0" and b: "(4 :: sz) \<le> 0x7FFFFFFFFFFFFFFF" by simp_all
  from uk_console_in_bounds [OF ok n, of "[0, 0, 0, 0]"] b ok show ?thesis by blast
qed

text \<open>
  Against C10 as the spec states it, for a length above \<open>SSIZE_MAX\<close>: with \<open>len = SIZE_MAX\<close> and two
  devices that each report \<open>SSIZE_MAX\<close> bytes, both results are accepted and the value
  returned is \<open>SIZE_MAX - 1\<close>, which is \<open>-2\<close> as an \<open>__ssz\<close>.
\<close>

theorem uk_console_in_sign_counterexample:
  "uk_console_in (Some [0]) 0xFFFFFFFFFFFFFFFF (registered [1, 2] greedy_mem quiet) =
     Inr (0xFFFFFFFFFFFFFFFE, Some [0],
          (registered [1, 2] greedy_mem quiet)
            \<lparr>hw := quiet,
             calls := [InCall 1 0xFFFFFFFFFFFFFFFF 0x7FFFFFFFFFFFFFFF,
                       InCall 2 0x8000000000000000 0x7FFFFFFFFFFFFFFF]\<rparr>) \<and>
   sint (0xFFFFFFFFFFFFFFFE :: ssz) = - 2"
  unfolding registered_greedy
  by (simp add: uk_console_in_def uk_console_in_direct_def UK_CONSOLE_def UK_CONSOLE_FLAG_STDIN_def
      greedy_in_def store_bytes_def quiet_def Let_def)

lemma uk_console_in_loop_all_negative:
  "list_all (\<lambda>a. con_ops (devs s a) \<noteq> None) as \<Longrightarrow> leftover \<noteq> 0 \<Longrightarrow>
   \<forall>a\<in>set (filter (\<lambda>a. con_flags (devs s a) AND UK_CONSOLE_FLAG_STDIN \<noteq> 0 \<and> has_in (devs s) a) as).
      always_negative (devs s) a \<Longrightarrow>
   \<exists>mem s' cs. uk_console_in_loop as done buf leftover s = Inr (mem, leftover, s') \<and>
      calls s' = calls s @ cs \<and>
      map call_dev cs =
        filter (\<lambda>a. con_flags (devs s a) AND UK_CONSOLE_FLAG_STDIN \<noteq> 0 \<and> has_in (devs s) a) as"
proof (induction as arbitrary: s "done" buf)
  case Nil
  then show ?case by simp
next
  case (Cons a as)
  let ?P = "\<lambda>s a. con_flags (devs s a) AND UK_CONSOLE_FLAG_STDIN \<noteq> 0 \<and> has_in (devs s) a"
  from Cons.prems(1) obtain ops where ops: "con_ops (devs s a) = Some ops" and
    rest_ok: "list_all (\<lambda>a. con_ops (devs s a) \<noteq> None) as"
    by auto
  have neg_rest: "\<forall>b\<in>set (filter (?P s) as). always_negative (devs s) b"
    using Cons.prems(3) by simp
  show ?case
  proof (cases "?P s a")
    case False
    then have fl: "filter (?P s) (a # as) = filter (?P s) as" by auto
    have skip: "uk_console_in_loop (a # as) done buf leftover s =
        uk_console_in_loop as done buf leftover s"
      using False ops by (auto simp: has_in_def)
    show ?thesis unfolding skip fl using Cons.IH [OF rest_ok Cons.prems(2) neg_rest] .
  next
    case True
    then obtain f where f: "ops_in ops = Some f" using ops by (auto simp: has_in_def)
    have fl: "filter (?P s) (a # as) = a # filter (?P s) as" using True by simp
    obtain rc dat w1 where r: "f a leftover (hw s) = ((rc, dat), w1)"
      by (cases "f a leftover (hw s)") auto
    have "always_negative (devs s) a" using Cons.prems(3) True by simp
    then have "sint (fst (fst (f a leftover (hw s)))) < 0"
      using ops f by (simp add: always_negative_def)
    then have neg: "sint rc < 0" using r by simp
    let ?s1 = "s\<lparr>hw := w1, calls := calls s @ [InCall a leftover rc]\<rparr>"
    have step: "uk_console_in_loop (a # as) done buf leftover s =
        uk_console_in_loop as done (store_bytes (take (unat leftover) dat) buf) leftover ?s1"
      using True ops f r neg Cons.prems(2) by (simp add: uk_console_in_direct_def Let_def)
    have p1: "list_all (\<lambda>a. con_ops (devs ?s1 a) \<noteq> None) as" using rest_ok by simp
    have p3: "\<forall>b\<in>set (filter (?P ?s1) as). always_negative (devs ?s1) b"
      using neg_rest by simp
    from Cons.IH [OF p1 Cons.prems(2) p3,
        of "done" "store_bytes (take (unat leftover) dat) buf"]
    obtain mem s' cs where
      l: "uk_console_in_loop as done (store_bytes (take (unat leftover) dat) buf) leftover ?s1 =
          Inr (mem, leftover, s')" and
      c: "calls s' = calls ?s1 @ cs" and
      m: "map call_dev cs = filter (?P ?s1) as"
      by blast
    have "uk_console_in_loop as done (store_bytes (take (unat leftover) dat) buf) leftover ?s1 =
          Inr (mem, leftover, s') \<and>
        calls s' = calls s @ (InCall a leftover rc # cs) \<and>
        map call_dev (InCall a leftover rc # cs) = a # filter (?P s) as"
      using l c m by simp
    then show ?thesis unfolding step fl by (intro exI)
  qed
qed

text \<open>
  C1, as the code has it. A negative result of a device's \<open>in\<close> does not end the loop
  of \<open>uk_console_in\<close>: when the loop is at an IS_STDIN device whose \<open>in\<close> returns a
  negative value, it goes on with the devices registered after it, with the same room
  left and the same position in the buffer. And when the \<open>in\<close> of every IS_STDIN
  device returns a negative value, \<open>uk_console_in\<close> calls each of them, in registration
  order, and returns 0.
\<close>

theorem uk_console_in_negative_continues:
  "(con_flags (devs s a) AND UK_CONSOLE_FLAG_STDIN \<noteq> 0 \<and> con_ops (devs s a) = Some ops \<and>
    ops_in ops = Some f \<and> leftover \<noteq> 0 \<and> f a leftover (hw s) = ((rc, dat), w) \<and> sint rc < 0
    \<longrightarrow>
    uk_console_in_loop (a # as) done buf leftover s =
      uk_console_in_loop as done (store_bytes (take (unat leftover) dat) buf) leftover
        (s\<lparr>hw := w, calls := calls s @ [InCall a leftover rc]\<rparr>)) \<and>
   (registry_ok t \<and> len \<noteq> 0 \<and> (\<forall>d\<in>set (stdin_devices t). always_negative (devs t) d)
    \<longrightarrow>
    (\<exists>mem t' cs. uk_console_in (Some b) len t = Inr (0, Some mem, t') \<and>
       calls t' = calls t @ cs \<and> map call_dev cs = stdin_devices t))"
proof (intro conjI impI)
  assume "con_flags (devs s a) AND UK_CONSOLE_FLAG_STDIN \<noteq> 0 \<and> con_ops (devs s a) = Some ops \<and>
    ops_in ops = Some f \<and> leftover \<noteq> 0 \<and> f a leftover (hw s) = ((rc, dat), w) \<and> sint rc < 0"
  then show "uk_console_in_loop (a # as) done buf leftover s =
      uk_console_in_loop as done (store_bytes (take (unat leftover) dat) buf) leftover
        (s\<lparr>hw := w, calls := calls s @ [InCall a leftover rc]\<rparr>)"
    by (simp add: uk_console_in_direct_def Let_def)
next
  assume h: "registry_ok t \<and> len \<noteq> 0 \<and> (\<forall>d\<in>set (stdin_devices t). always_negative (devs t) d)"
  then have ok: "list_all (\<lambda>a. con_ops (devs t a) \<noteq> None) (uk_console_device_list t)"
    and n: "len \<noteq> 0"
    and neg: "\<forall>d\<in>set (filter (\<lambda>a. con_flags (devs t a) AND UK_CONSOLE_FLAG_STDIN \<noteq> 0 \<and>
        has_in (devs t) a) (uk_console_device_list t)). always_negative (devs t) d"
    by (simp_all add: registry_ok_def stdin_devices_def)
  from uk_console_in_loop_all_negative [OF ok n neg, of "[]" b] obtain mem t' cs where
    "uk_console_in_loop (uk_console_device_list t) [] b len t = Inr (mem, len, t')"
    "calls t' = calls t @ cs" "map call_dev cs = stdin_devices t"
    unfolding stdin_devices_def by blast
  then show "\<exists>mem t' cs. uk_console_in (Some b) len t = Inr (0, Some mem, t') \<and>
       calls t' = calls t @ cs \<and> map call_dev cs = stdin_devices t"
    using n by (simp add: uk_console_in_def)
qed

theorem uk_console_in_negative_continues_witness:
  "uk_console_in_loop [1, 2] [] [0, 0, 0, 0] 4 (registered [1, 2] faulty_mem xy_pending) =
     uk_console_in_loop [2] [] [0, 0, 0, 0] 4
       ((registered [1, 2] faulty_mem xy_pending)\<lparr>hw := xy_pending, calls := [InCall 1 4 (- 5)]\<rparr>) \<and>
   (\<exists>mem t' cs.
      uk_console_in (Some [0, 0, 0, 0]) 4 (registered [1, 2] failing_mem quiet) =
        Inr (0, Some mem, t') \<and>
      calls t' = calls (registered [1, 2] failing_mem quiet) @ cs \<and> map call_dev cs = [1, 2])"
proof -
  let ?S = "registered [1, 2] faulty_mem xy_pending"
  let ?T = "registered [1, 2] failing_mem quiet"
  have a: "con_flags (devs ?S 1) AND UK_CONSOLE_FLAG_STDIN \<noteq> 0 \<and>
      con_ops (devs ?S 1) = Some \<lparr>ops_out = None, ops_in = Some failing_in\<rparr> \<and>
      ops_in \<lparr>ops_out = None, ops_in = Some failing_in\<rparr> = Some failing_in \<and>
      (4 :: sz) \<noteq> 0 \<and> failing_in 1 4 (hw ?S) = ((- 5, []), xy_pending) \<and> sint (- 5 :: ssz) < 0"
    unfolding registered_faulty
    by (simp add: UK_CONSOLE_def UK_CONSOLE_FLAG_STDIN_def failing_in_def)
  have sd: "stdin_devices ?T = [1, 2]"
    unfolding registered_failing
    by (simp add: stdin_devices_def has_in_def UK_CONSOLE_def UK_CONSOLE_FLAG_STDIN_def)
  have c: "registry_ok ?T \<and> (4 :: sz) \<noteq> 0 \<and>
      (\<forall>d\<in>set (stdin_devices ?T). always_negative (devs ?T) d)"
    unfolding sd unfolding registered_failing
    by (simp add: registry_ok_def always_negative_def UK_CONSOLE_def failing_in_def)
  have cs: "calls ?S = []" unfolding registered_faulty by simp
  note th = uk_console_in_negative_continues [of ?S 1 "\<lparr>ops_out = None, ops_in = Some failing_in\<rparr>"
      failing_in 4 "- 5" "[]" xy_pending "[2]" "[]" "[0, 0, 0, 0]" ?T 4 "[0, 0, 0, 0]"]
  from th [THEN conjunct1, rule_format, OF a] th [THEN conjunct2, rule_format, OF c]
  show ?thesis unfolding sd cs by (simp add: store_bytes_def)
qed

text \<open>
  Against C1 as the spec states it: A returns \<open>-5\<close>, and B, registered after it, is still
  called and its two bytes are returned.
\<close>

theorem uk_console_in_abort_counterexample:
  "uk_console_in (Some [0, 0, 0, 0]) 4 (registered [1, 2] faulty_mem xy_pending) =
     Inr (2, Some [120, 121, 0, 0],
          (registered [1, 2] faulty_mem xy_pending)
            \<lparr>hw := quiet(2 := []), calls := [InCall 1 4 (- 5), InCall 2 4 2]\<rparr>)"
  unfolding registered_faulty
  by (simp add: uk_console_in_def uk_console_in_direct_def UK_CONSOLE_def UK_CONSOLE_FLAG_STDIN_def
      failing_in_def fifo_in_def store_bytes_def xy_pending_def quiet_def Let_def)

section \<open>Output of the NS16550 driver\<close>

lemma wait_tx_empty_returns:
  "tx_empty_within io n (uart dev) \<Longrightarrow>
   \<exists>d. wait_tx_empty io dev = Some d \<and> written d = written dev"
proof (induction n arbitrary: dev)
  case 0
  then show ?case by simp
next
  case (Suc n)
  obtain v h where r: "io_read io (uart dev) NS16550_LSR_OFFSET = (v, h)"
    by (cases "io_read io (uart dev) NS16550_LSR_OFFSET") auto
  show ?case
  proof (cases "v AND NS16550_LSR_TX_EMPTY = 0")
    case True
    then have "tx_empty_within io n (uart (dev\<lparr>uart := h\<rparr>))" using Suc.prems r by simp
    from Suc.IH [OF this] obtain d where
      "wait_tx_empty io (dev\<lparr>uart := h\<rparr>) = Some d" "written d = written dev"
      by auto
    then show ?thesis using True r
      by (subst wait_tx_empty.simps) (simp add: ns16550_io_read_def)
  next
    case False
    then show ?thesis using r
      by (subst wait_tx_empty.simps) (simp add: ns16550_io_read_def)
  qed
qed

lemma mask_0xff: "(0xff :: u32) = mask 8"
  by (simp add: mask_eq_exp_minus_1)

lemma byte_mask: "(ucast (a :: byte) :: u32) AND 0xff = ucast a"
  unfolding mask_0xff by (rule bit_word_eqI) (auto simp: bit_simps dest: bit_imp_le_length)

lemma putc_raw_returns:
  assumes "tx_always_drains io"
  shows "\<exists>d. putc_raw io dev a = Some d \<and> thr_writes d = thr_writes dev @ [ucast a]"
proof -
  from assms obtain n where "tx_empty_within io n (uart dev)"
    unfolding tx_always_drains_def by blast
  from wait_tx_empty_returns [OF this] obtain d1 where
    w: "wait_tx_empty io dev = Some d1" and l: "written d1 = written dev"
    by blast
  obtain lcr h where r: "io_read io (uart d1) NS16550_LCR_OFFSET = (lcr, h)"
    by (cases "io_read io (uart d1) NS16550_LCR_OFFSET") auto
  show ?thesis
    using w l r
    by (simp add: putc_raw_def ns16550_io_read_def ns16550_io_write_def thr_writes_def
        NS16550_THR_OFFSET_def NS16550_LCR_OFFSET_def byte_mask)
qed

lemma ns16550_putc_returns:
  assumes "tx_always_drains io"
  shows "\<exists>d. ns16550_putc io dev a = Some d \<and> thr_writes d = thr_writes dev @ crlf a"
proof (cases "a = 10")
  case True
  from putc_raw_returns [OF assms, of dev 13] obtain d1 where
    a: "putc_raw io dev 13 = Some d1" and b: "thr_writes d1 = thr_writes dev @ [ucast (13 :: byte)]"
    by blast
  from putc_raw_returns [OF assms, of d1 10] obtain d2 where
    c: "putc_raw io d1 10 = Some d2" and d: "thr_writes d2 = thr_writes d1 @ [ucast (10 :: byte)]"
    by blast
  show ?thesis using True a b c d by (simp add: ns16550_putc_def crlf_def)
next
  case False
  from putc_raw_returns [OF assms, of dev a] show ?thesis
    using False by (simp add: ns16550_putc_def crlf_def)
qed

lemma ns16550_out_loop_returns:
  assumes "tx_always_drains io"
  shows "unat l \<le> length b \<Longrightarrow>
    \<exists>d. ns16550_out_loop io dev b l = Inr d \<and>
      thr_writes d = thr_writes dev @ concat (map crlf (take (unat l) b))"
proof (induction b arbitrary: dev l)
  case Nil
  then show ?case by (simp add: unat_eq_0)
next
  case (Cons c cs)
  show ?case
  proof (cases "l = 0")
    case True
    then show ?thesis by simp
  next
    case False
    then have pos: "0 < unat l" by (simp add: unat_gt_0)
    have u: "unat (l - 1) = unat l - 1" using False by (simp add: unat_minus_one)
    from ns16550_putc_returns [OF assms, of dev c] obtain d1 where
      p: "ns16550_putc io dev c = Some d1" and t1: "thr_writes d1 = thr_writes dev @ crlf c"
      by blast
    have "unat (l - 1) \<le> length cs" using Cons.prems u by simp
    from Cons.IH [OF this, of d1] obtain d where
      r: "ns16550_out_loop io d1 cs (l - 1) = Inr d" and
      t2: "thr_writes d = thr_writes d1 @ concat (map crlf (take (unat (l - 1)) cs))"
      by blast
    have "take (unat l) (c # cs) = c # take (unat (l - 1)) cs"
      using pos u by (simp add: take_Cons')
    then show ?thesis using False p r t1 t2 by simp
  qed
qed

lemma slow_io_within: "tx_empty_within slow_io (Suc h) h"
  by (induction h) (simp_all add: slow_io_def NS16550_LSR_TX_EMPTY_def)

lemma slow_io_drains: "tx_always_drains slow_io"
  unfolding tx_always_drains_def using slow_io_within by blast

text \<open>
  C8. When the buffer holds at least \<open>len\<close> bytes and the transmitter of the UART
  becomes empty after finitely many polls from every state, \<open>ns16550_out\<close> returns
  \<open>len\<close>, and the bytes it has written to THR are, in order, those of the first \<open>len\<close>
  bytes of the buffer with a carriage return (13) put right before each line feed (10)
  and every other byte unchanged.
\<close>

theorem ns16550_out_crlf:
  assumes "tx_always_drains io" and "unat len \<le> length b"
  shows "\<exists>dev'. ns16550_out io dev (Some b) len = Inr (len, dev') \<and>
     thr_writes dev' = thr_writes dev @ concat (map crlf (take (unat len) b))"
proof -
  from ns16550_out_loop_returns [OF assms, of dev] obtain d where
    "ns16550_out_loop io dev b len = Inr d"
    "thr_writes d = thr_writes dev @ concat (map crlf (take (unat len) b))"
    by blast
  then show ?thesis by (simp add: ns16550_out_def)
qed

theorem ns16550_out_crlf_witness:
  "\<exists>dev'. ns16550_out slow_io \<lparr>uart = 1, written = []\<rparr> (Some [104, 105, 10]) 3 = Inr (3, dev') \<and>
     thr_writes dev' = [104, 105, 13, 10]"
  using ns16550_out_crlf [OF slow_io_drains, of 3 "[104, 105, 10]" "\<lparr>uart = 1, written = []\<rparr>"]
  by (simp add: thr_writes_def crlf_def)

text \<open>
  Without the hypothesis on the transmitter the call need not return: on a UART whose
  TX-empty bit never comes, \<open>ns16550_out\<close> with a nonzero length spins in \<open>_putc\<close>.
\<close>

lemma wait_tx_empty_not_stuck:
  assumes "wait_tx_empty io dev = Some y"
  shows "\<not> tx_stuck io"
proof (rule wait_tx_empty.raw_induct [where P = "\<lambda>io dev y. \<not> tx_stuck io", OF _ assms])
  fix f :: "'a ns16550_io \<Rightarrow> 'a ns16550_device \<Rightarrow> 'a ns16550_device option"
  fix io dev y
  assume ih: "\<And>io dev y. f io dev = Some y \<Longrightarrow> \<not> tx_stuck io"
  assume body: "(case ns16550_io_read io dev NS16550_LSR_OFFSET of (v, dev') \<Rightarrow>
        if v AND NS16550_LSR_TX_EMPTY = 0 then f io dev' else Some dev') = Some y"
  show "\<not> tx_stuck io"
  proof
    assume st: "tx_stuck io"
    obtain v h where r: "io_read io (uart dev) NS16550_LSR_OFFSET = (v, h)"
      by (cases "io_read io (uart dev) NS16550_LSR_OFFSET") auto
    have "fst (io_read io (uart dev) NS16550_LSR_OFFSET) AND NS16550_LSR_TX_EMPTY = 0"
      using st unfolding tx_stuck_def by blast
    then have "v AND NS16550_LSR_TX_EMPTY = 0" using r by simp
    then have "f io (dev\<lparr>uart := h\<rparr>) = Some y"
      using body r by (simp add: ns16550_io_read_def)
    then have "\<not> tx_stuck io" by (rule ih)
    then show False using st by simp
  qed
qed

lemma ns16550_out_stuck:
  assumes "tx_stuck io" and "len \<noteq> 0"
  shows "ns16550_out io dev (Some (c # cs)) len = Inl NoReturn"
proof -
  have w: "wait_tx_empty io d = None" for d
    using wait_tx_empty_not_stuck [of io d] assms(1) by (cases "wait_tx_empty io d") auto
  have "ns16550_putc io dev c = None"
    by (simp add: ns16550_putc_def putc_raw_def w)
  then show ?thesis using assms(2) by (simp add: ns16550_out_def)
qed

end
